theory Spec2Isabelle
  imports Main "HOL-Library.Word"
begin

unbundle bit_operations_syntax

section \<open>Go strings, runes and the library calls the compiler makes\<close>

text \<open>
  A Go string is a sequence of bytes; \<open>len\<close> counts bytes. It is modelled as
  \<^typ>\<open>string\<close> (a list of 8-bit characters). A rune is a code point.
\<close>

type_synonym rune = nat

definition byte :: "nat \<Rightarrow> char" where
  "byte n = char_of n"

definition RuneError :: rune where
  "RuneError = 0xFFFD"

text \<open>\<open>utf8.DecodeRune\<close>: the first rune of \<open>p\<close> and its width in bytes; an invalid
  or short encoding is \<open>(RuneError, 1)\<close>.\<close>

definition DecodeRune :: "string \<Rightarrow> rune \<times> nat" where
  "DecodeRune p =
     (case p of
        [] \<Rightarrow> (RuneError, 0)
      | c0 # cs \<Rightarrow>
          let p0 = (of_char c0 :: nat) in
          if p0 < 0x80 then (p0, 1)
          else if p0 < 0xC2 \<or> 0xF4 < p0 then (RuneError, 1)
          else
            let sz = (if p0 < 0xE0 then 2 else if p0 < 0xF0 then 3 else (4::nat));
                lo = (if p0 = 0xE0 then 0xA0 else if p0 = 0xF0 then 0x90 else (0x80::nat));
                hi = (if p0 = 0xED then 0x9F else if p0 = 0xF4 then 0x8F else (0xBF::nat))
            in if length p < sz then (RuneError, 1)
               else
                 let b1 = (of_char (p ! 1) :: nat) in
                 if b1 < lo \<or> hi < b1 then (RuneError, 1)
                 else if sz \<le> 2 then ((p0 mod 0x20) * 0x40 + b1 mod 0x40, 2)
                 else
                   let b2 = (of_char (p ! 2) :: nat) in
                   if b2 < 0x80 \<or> 0xBF < b2 then (RuneError, 1)
                   else if sz \<le> 3 then
                     ((p0 mod 0x10) * 0x1000 + (b1 mod 0x40) * 0x40 + b2 mod 0x40, 3)
                   else
                     let b3 = (of_char (p ! 3) :: nat) in
                     if b3 < 0x80 \<or> 0xBF < b3 then (RuneError, 1)
                     else ((p0 mod 0x08) * 0x40000 + (b1 mod 0x40) * 0x1000
                             + (b2 mod 0x40) * 0x40 + b3 mod 0x40, 4))"

text \<open>\<open>(*bytes.Buffer).ReadRune\<close>: \<open>None\<close> is \<open>io.EOF\<close>; otherwise the rune and the
  buffer advanced past it.\<close>

definition ReadRune :: "string \<Rightarrow> (rune \<times> string) option" where
  "ReadRune buf =
     (if buf = [] then None
      else let (r, n) = DecodeRune buf in Some (r, drop n buf))"

text \<open>\<open>(*strings.Builder).WriteRune\<close> appends the UTF-8 encoding of the rune; the
  bytes appended are:\<close>

definition WriteRune :: "rune \<Rightarrow> string" where
  "WriteRune r =
     (if r \<le> 0x7F then [byte r]
      else if r \<le> 0x7FF then [byte (0xC0 + r div 0x40), byte (0x80 + r mod 0x40)]
      else if 0x10FFFF < r \<or> (0xD800 \<le> r \<and> r \<le> 0xDFFF) then [byte 0xEF, byte 0xBF, byte 0xBD]
      else if r \<le> 0xFFFF then
        [byte (0xE0 + r div 0x1000), byte (0x80 + r div 0x40 mod 0x40), byte (0x80 + r mod 0x40)]
      else
        [byte (0xF0 + r div 0x40000), byte (0x80 + r div 0x1000 mod 0x40),
         byte (0x80 + r div 0x40 mod 0x40), byte (0x80 + r mod 0x40)])"

text \<open>\<open>unicode.IsSpace\<close>.\<close>

definition IsSpace :: "rune \<Rightarrow> bool" where
  "IsSpace r \<longleftrightarrow>
     (if r \<le> 0xFF then r \<in> {0x09, 0x0A, 0x0B, 0x0C, 0x0D, 0x20, 0x85, 0xA0}
      else r = 0x1680 \<or> (0x2000 \<le> r \<and> r \<le> 0x200A) \<or> r = 0x2028 \<or> r = 0x2029
           \<or> r = 0x202F \<or> r = 0x205F \<or> r = 0x3000)"

text \<open>\<open>strings.HasPrefix\<close>.\<close>

definition HasPrefix :: "string \<Rightarrow> string \<Rightarrow> bool" where
  "HasPrefix s p \<longleftrightarrow> take (length p) s = p"

text \<open>\<open>strings.Trim\<close> with a cutset of one ASCII byte: all leading and trailing
  occurrences of that byte are removed.\<close>

definition Trim :: "string \<Rightarrow> char \<Rightarrow> string" where
  "Trim s c = rev (dropWhile (\<lambda>x. x = c) (rev (dropWhile (\<lambda>x. x = c) s)))"

text \<open>\<open>strings.Split\<close> with a separator of one byte: cut at every occurrence.\<close>

function Split :: "string \<Rightarrow> char \<Rightarrow> string list" where
  "Split s sep =
     (case dropWhile (\<lambda>x. x \<noteq> sep) s of
        [] \<Rightarrow> [s]
      | _ # rest \<Rightarrow> takeWhile (\<lambda>x. x \<noteq> sep) s # Split rest sep)"
  by pat_completeness auto
termination
proof (relation "measure (\<lambda>(s, sep). length s)")
  show "wf (measure (\<lambda>(s, sep). length s))" by simp
next
  fix s :: string and sep x21 x22
  assume "dropWhile (\<lambda>x. x \<noteq> sep) s = x21 # x22"
  then have "length (dropWhile (\<lambda>x. x \<noteq> sep) s) = Suc (length x22)" by simp
  moreover have "length (dropWhile (\<lambda>x. x \<noteq> sep) s) \<le> length s"
    by (rule length_dropWhile_le)
  ultimately show "((x22, sep), s, sep) \<in> measure (\<lambda>(s, sep). length s)" by simp
qed

declare Split.simps [simp del]

text \<open>\<open>utf8.RuneStart\<close> and \<open>utf8.DecodeLastRune\<close>: the last rune of \<open>p\<close> and its
  width. The loop walks back from the byte before the last one, at most to \<open>lim\<close>,
  until it stands on a byte that can start a rune.\<close>

definition RuneStart :: "char \<Rightarrow> bool" where
  "RuneStart b \<longleftrightarrow> \<not> (0x80 \<le> (of_char b :: nat) \<and> (of_char b :: nat) \<le> 0xBF)"

function back_loop :: "string \<Rightarrow> int \<Rightarrow> int \<Rightarrow> int" where
  "back_loop p start lim =
     (if lim \<le> start
      then (if RuneStart (p ! nat start) then start else back_loop p (start - 1) lim)
      else start)"
  by pat_completeness auto
termination
  by (relation "measure (\<lambda>(p, start, lim). nat (start - lim + 1))") auto

declare back_loop.simps [simp del]

definition DecodeLastRune :: "string \<Rightarrow> rune \<times> nat" where
  "DecodeLastRune p =
     (let end = int (length p) in
      if end = 0 then (RuneError, 0)
      else
        let r = (of_char (p ! nat (end - 1)) :: nat) in
        if r < 0x80 then (r, 1)
        else
          let lim = max 0 (end - 4);
              start = max 0 (back_loop p (end - 2) lim);
              (r, width) = DecodeRune (drop (nat start) p)
          in if start + int width \<noteq> end then (RuneError, 1) else (r, width))"

text \<open>\<open>strings.TrimSpace\<close>: leading white space runes are dropped reading forwards,
  trailing ones reading backwards.\<close>

lemma DecodeRune_width: "p \<noteq> [] \<Longrightarrow> 1 \<le> snd (DecodeRune p)"
  by (cases p) (simp_all add: DecodeRune_def Let_def)

lemma ReadRune_shorter [termination_simp]:
  "ReadRune buf = Some (r, rest) \<Longrightarrow> length rest < length buf"
proof -
  assume a: "ReadRune buf = Some (r, rest)"
  then have ne: "buf \<noteq> []" by (auto simp: ReadRune_def)
  from a ne have "rest = drop (snd (DecodeRune buf)) buf"
    by (auto simp: ReadRune_def split: prod.splits)
  with DecodeRune_width [OF ne] ne show ?thesis by (cases buf) auto
qed

lemma back_loop_le: "back_loop p start lim \<le> start"
proof (induction p start lim rule: back_loop.induct)
  case (1 p start lim)
  show ?case
  proof (cases "lim \<le> start \<and> \<not> RuneStart (p ! nat start)")
    case True
    with "1.IH" have "back_loop p (start - 1) lim \<le> start - 1" by simp
    with True show ?thesis by (simp add: back_loop.simps [of p start lim])
  next
    case False
    then show ?thesis by (auto simp: back_loop.simps [of p start lim])
  qed
qed

lemma DecodeLastRune_width: "p \<noteq> [] \<Longrightarrow> 1 \<le> snd (DecodeLastRune p)"
proof -
  assume ne: "p \<noteq> []"
  define e where "e = int (length p)"
  define st where "st = max 0 (back_loop p (e - 2) (max 0 (e - 4)))"
  have e: "1 \<le> e" using ne by (cases p) (simp_all add: e_def)
  have "back_loop p (e - 2) (max 0 (e - 4)) \<le> e - 2" by (rule back_loop_le)
  with e have st: "st < e" by (simp add: st_def)
  obtain r n where d: "DecodeRune (drop (nat st) p) = (r, n)" by (cases "DecodeRune (drop (nat st) p)")
  have "st + int n = e \<Longrightarrow> 1 \<le> n" using st by simp
  then show ?thesis
    using e d by (auto simp: DecodeLastRune_def Let_def e_def [symmetric] st_def [symmetric])
qed

function TrimLeftSpace :: "string \<Rightarrow> string" where
  "TrimLeftSpace s =
     (case ReadRune s of
        None \<Rightarrow> []
      | Some (r, rest) \<Rightarrow> if IsSpace r then TrimLeftSpace rest else s)"
  by pat_completeness auto
termination
  by (relation "measure length") (auto simp: ReadRune_shorter)

declare TrimLeftSpace.simps [simp del]

function TrimRightSpace :: "string \<Rightarrow> string" where
  "TrimRightSpace s =
     (if s = [] then []
      else case DecodeLastRune s of
             (r, width) \<Rightarrow> if IsSpace r then TrimRightSpace (take (length s - width) s) else s)"
  by pat_completeness auto
termination
proof (relation "measure length", goal_cases)
  case 1
  show ?case by simp
next
  case (2 s r width)
  then have "snd (DecodeLastRune s) = width" by (metis snd_conv)
  with DecodeLastRune_width [of s] 2 have "1 \<le> width" by simp
  with 2 show ?case by (cases s) auto
qed

declare TrimRightSpace.simps [simp del]

definition TrimSpace :: "string \<Rightarrow> string" where
  "TrimSpace s = TrimRightSpace (TrimLeftSpace s)"

section \<open>Errors\<close>

text \<open>Every error the program can end with. \<open>Fatal\<close> is \<open>log.Fatalln\<close> inside the
  scanner, which ends the process; \<open>IOError\<close> stands for any error of the operating
  system (open, short write).\<close>

datatype error =
    UnknownVariable string
  | UnknownOperator string
  | UnknownContext string
  | Fatal string
  | DecodeError string
  | IOError string

section \<open>Tokenizer\<close>

text \<open>\<open>scanWord\<close>: copy runes to \<open>dst\<close> up to end of input or a white space rune
  (which is consumed). The builder and the buffer are returned as they are left.\<close>

function scanWord :: "string \<Rightarrow> string \<Rightarrow> string \<times> string" where
  "scanWord dst src =
     (case ReadRune src of
        None \<Rightarrow> (dst, src)
      | Some (r, src') \<Rightarrow>
          if IsSpace r then (dst, src')
          else scanWord (dst @ WriteRune r) src')"
  by pat_completeness auto
termination
  by (relation "measure (\<lambda>(dst, src). length src)") (auto simp: ReadRune_shorter)

declare scanWord.simps [simp del]

text \<open>\<open>scanDelim\<close>: the loop with its \<open>escape\<close> flag as an argument. Reaching the
  end of input inside the literal is \<open>log.Fatalln\<close>.\<close>

function scanDelim_loop :: "bool \<Rightarrow> string \<Rightarrow> string \<Rightarrow> rune \<Rightarrow> error + string \<times> string" where
  "scanDelim_loop escape dst src delim =
     (case ReadRune src of
        None \<Rightarrow> Inl (Fatal ''invalid string'')
      | Some (r, src') \<Rightarrow>
          if escape then scanDelim_loop False (dst @ WriteRune r) src' delim
          else if r = 0x5C then scanDelim_loop True dst src' delim
          else if r = delim then Inr (dst @ WriteRune r, src')
          else scanDelim_loop False (dst @ WriteRune r) src' delim)"
  by pat_completeness auto
termination
  by (relation "measure (\<lambda>(escape, dst, src, delim). length src)") (auto simp: ReadRune_shorter)

declare scanDelim_loop.simps [simp del]

definition scanDelim :: "string \<Rightarrow> string \<Rightarrow> rune \<Rightarrow> error + string \<times> string" where
  "scanDelim dst src delim = scanDelim_loop False dst src delim"

lemma scanWord_length: "scanWord dst src = (dst', src') \<Longrightarrow> length src' \<le> length src"
proof (induction dst src rule: scanWord.induct)
  case (1 dst src)
  show ?case
  proof (cases "ReadRune src")
    case None
    with "1.prems" show ?thesis by (simp add: scanWord.simps [of dst src])
  next
    case (Some a)
    obtain r s where a: "a = (r, s)" by (cases a)
    have sh: "length s < length src" using Some a by (simp add: ReadRune_shorter)
    show ?thesis
    proof (cases "IsSpace r")
      case True
      with "1.prems" Some a sh show ?thesis by (simp add: scanWord.simps [of dst src])
    next
      case False
      with "1.prems" Some a have "scanWord (dst @ WriteRune r) s = (dst', src')"
        by (simp add: scanWord.simps [of dst src])
      with "1.IH" [OF Some a [symmetric] False] Some a False sh show ?thesis by simp
    qed
  qed
qed

lemma scanDelim_loop_length:
  "scanDelim_loop escape dst src delim = Inr (dst', src') \<Longrightarrow> length src' < length src"
proof (induction escape dst src delim rule: scanDelim_loop.induct)
  case (1 escape dst src delim)
  show ?case
  proof (cases "ReadRune src")
    case None
    with "1.prems" show ?thesis by (simp add: scanDelim_loop.simps [of escape dst src])
  next
    case (Some a)
    obtain r s where a: "a = (r, s)" by (cases a)
    have sh: "length s < length src" using Some a by (simp add: ReadRune_shorter)
    from "1.prems" Some a
    consider (esc) "escape" "scanDelim_loop False (dst @ WriteRune r) s delim = Inr (dst', src')"
      | (bs) "\<not> escape" "r = 0x5C" "scanDelim_loop True dst s delim = Inr (dst', src')"
      | (close) "\<not> escape" "r \<noteq> 0x5C" "r = delim" "src' = s"
      | (other) "\<not> escape" "r \<noteq> 0x5C" "r \<noteq> delim"
          "scanDelim_loop False (dst @ WriteRune r) s delim = Inr (dst', src')"
      by (simp add: scanDelim_loop.simps [of escape dst src] split: if_splits)
    then show ?thesis
    proof cases
      case esc
      with "1.IH"(1) [OF Some a [symmetric]] sh show ?thesis by simp
    next
      case bs
      with "1.IH"(2) [OF Some a [symmetric]] sh show ?thesis by simp
    next
      case close
      with sh show ?thesis by simp
    next
      case other
      with "1.IH"(3) [OF Some a [symmetric]] sh show ?thesis by simp
    qed
  qed
qed

lemma scanDelim_length [termination_simp]:
  "scanDelim dst src delim = Inr (dst', src') \<Longrightarrow> length src' < length src"
  by (simp add: scanDelim_def scanDelim_loop_length)

text \<open>\<open>scanGroups\<close>: the scanning loop. \<open>result\<close> and \<open>grp\<close> (the source's \<open>group\<close>) are the two
  slices of the source; the builder \<open>sb\<close> is empty at the head of every iteration,
  so each token starts from the rune just read.\<close>

function scanGroups_loop ::
  "string list list \<Rightarrow> string list \<Rightarrow> string \<Rightarrow> error + string list list \<times> string list" where
  "scanGroups_loop result grp buf =
     (case ReadRune buf of
        None \<Rightarrow> Inr (result, grp)
      | Some (r, buf') \<Rightarrow>
          if IsSpace r then scanGroups_loop result grp buf'
          else if r = 0x3A then scanGroups_loop (result @ [grp]) [] buf'
          else if r = 0x27 then
            (case scanDelim (WriteRune r) buf' 0x27 of
               Inl e \<Rightarrow> Inl e
             | Inr (sb, buf'') \<Rightarrow> scanGroups_loop result (grp @ [sb]) buf'')
          else if r = 0x2F then
            (case scanDelim (WriteRune r) buf' 0x2F of
               Inl e \<Rightarrow> Inl e
             | Inr (sb, buf'') \<Rightarrow> scanGroups_loop result (grp @ [sb]) buf'')
          else
            (case scanWord (WriteRune r) buf' of
               (sb, buf'') \<Rightarrow> scanGroups_loop result (grp @ [sb]) buf''))"
  by pat_completeness auto
termination
proof (relation "measure (\<lambda>(result, grp, buf). length buf)", goal_cases)
  case 1
  show ?case by simp
next
  case (2 result grp buf x2 r buf')
  then have "ReadRune buf = Some (r, buf')" by simp
  then show ?case by (simp add: ReadRune_shorter)
next
  case (3 result grp buf x2 r buf')
  then have "ReadRune buf = Some (r, buf')" by simp
  then show ?case by (simp add: ReadRune_shorter)
next
  case (4 result grp buf x2 r buf' x2a sb buf'')
  then have "ReadRune buf = Some (r, buf')"
    and "scanDelim (WriteRune r) buf' 0x27 = Inr (sb, buf'')" by simp_all
  then have "length buf' < length buf" "length buf'' < length buf'"
    by (simp_all add: ReadRune_shorter scanDelim_length)
  then show ?case by simp
next
  case (5 result grp buf x2 r buf' x2a sb buf'')
  then have "ReadRune buf = Some (r, buf')"
    and "scanDelim (WriteRune r) buf' 0x2F = Inr (sb, buf'')" by simp_all
  then have "length buf' < length buf" "length buf'' < length buf'"
    by (simp_all add: ReadRune_shorter scanDelim_length)
  then show ?case by simp
next
  case (6 result grp buf x2 r buf' sb buf'')
  then have "ReadRune buf = Some (r, buf')"
    and "scanWord (WriteRune r) buf' = (sb, buf'')" by simp_all
  then have "length buf' < length buf" "length buf'' \<le> length buf'"
    by (simp_all add: ReadRune_shorter scanWord_length)
  then show ?case by simp
qed

declare scanGroups_loop.simps [simp del]

definition scanGroups :: "string \<Rightarrow> error + string list list" where
  "scanGroups text =
     (case scanGroups_loop [] [] text of
        Inl e \<Rightarrow> Inl e
      | Inr (result, grp) \<Rightarrow>
          Inr (if length grp \<noteq> 0 then result @ [grp] else result))"

section \<open>Condition parser\<close>

definition CTX :: "8 word" where "CTX = 1"
definition KEY :: "8 word" where "KEY = 2"
definition VAL :: "8 word" where "VAL = 3"
definition DEPTH :: "8 word" where "DEPTH = 4"

definition NUMERIC :: "8 word" where "NUMERIC = 1"
definition STRING :: "8 word" where "STRING = 2"
definition REGEXP :: "8 word" where "REGEXP = 3"

definition BLOCK :: "8 word" where "BLOCK = 1"
definition PASS :: "8 word" where "PASS = 2"
definition EQ :: "8 word" where "EQ = 3"
definition NEQ :: "8 word" where "NEQ = 4"

lemmas code_defs =
  CTX_def KEY_def VAL_def DEPTH_def NUMERIC_def STRING_def REGEXP_def
  BLOCK_def PASS_def EQ_def NEQ_def

record Stmt =
  Var :: "8 word"
  Op :: "8 word"
  Val :: string
  Regexp :: string

text \<open>The zero value \<open>Stmt{}\<close>.\<close>

definition Stmt0 :: Stmt where
  "Stmt0 = \<lparr>Var = 0, Op = 0, Val = [], Regexp = []\<rparr>"

definition parseVar :: "string \<Rightarrow> error + 8 word" where
  "parseVar val =
     (if val = ''$ctx'' then Inr CTX
      else if val = ''$key'' then Inr KEY
      else if val = ''$val'' then Inr VAL
      else if val = ''$depth'' then Inr DEPTH
      else Inl (UnknownVariable val))"

definition parseOp :: "string \<Rightarrow> error + 8 word" where
  "parseOp val =
     (if val = ''block'' then Inr BLOCK
      else if val = ''pass'' then Inr PASS
      else if val = ''=='' then Inr EQ
      else if val = ''!='' then Inr NEQ
      else Inl (UnknownOperator val))"

text \<open>The first half of the body of the loop of \<open>parseGroup\<close>: the token is stored
  in the field of \<open>curr\<close> that its first byte selects.\<close>

definition assignToken :: "Stmt \<Rightarrow> string \<Rightarrow> error + Stmt" where
  "assignToken cur token =
     (if HasPrefix token [CHR 0x27] then Inr (cur\<lparr>Val := Trim token (CHR 0x27)\<rparr>)
      else if HasPrefix token ''/'' then Inr (cur\<lparr>Regexp := token\<rparr>)
      else if HasPrefix token ''$'' then
        (case parseVar token of
           Inl err \<Rightarrow> Inl err
         | Inr v \<Rightarrow> Inr (cur\<lparr>Var := v\<rparr>))
      else
        (case parseOp token of
           Inl err \<Rightarrow> Inl err
         | Inr v \<Rightarrow> Inr (cur\<lparr>Op := v\<rparr>)))"

text \<open>The loop of \<open>parseGroup\<close>, with its two variables \<open>result\<close> and \<open>curr\<close>
  (here \<open>cur\<close>): the value of both when the loop ends, or the error it returns.
  \<open>parseGroup\<close> returns \<open>result\<close> alone.\<close>

fun parseGroup_loop :: "Stmt list \<Rightarrow> Stmt \<Rightarrow> string list \<Rightarrow> error + Stmt list \<times> Stmt" where
  "parseGroup_loop result cur [] = Inr (result, cur)"
| "parseGroup_loop result cur (token # tokens) =
     (case assignToken cur token of
        Inl err \<Rightarrow> Inl err
      | Inr cur \<Rightarrow>
          if (Var cur \<noteq> 0 \<and> Op cur \<noteq> 0
                \<and> (length (Val cur) \<noteq> 0 \<or> length (Regexp cur) \<noteq> 0))
             \<or> (Op cur = BLOCK \<or> Op cur = PASS)
          then parseGroup_loop (result @ [cur]) Stmt0 tokens
          else parseGroup_loop result cur tokens)"

definition parseGroup :: "string list \<Rightarrow> error + Stmt list" where
  "parseGroup tokens =
     (case parseGroup_loop [] Stmt0 tokens of
        Inl err \<Rightarrow> Inl err
      | Inr (result, cur) \<Rightarrow> Inr result)"

fun parseRule_loop :: "Stmt list list \<Rightarrow> string list list \<Rightarrow> error + Stmt list list" where
  "parseRule_loop result [] = Inr result"
| "parseRule_loop result (grp # groups) =
     (case parseGroup grp of
        Inl err \<Rightarrow> Inl err
      | Inr stmt \<Rightarrow> parseRule_loop (result @ [stmt]) groups)"

definition parseRule :: "string \<Rightarrow> error + Stmt list list" where
  "parseRule rule =
     (case scanGroups rule of
        Inl err \<Rightarrow> Inl err
      | Inr groups \<Rightarrow> parseRule_loop [] groups)"

section \<open>Rule model builder\<close>

record Endpoint =
  Method :: string
  Path :: string
  Rules :: "string list"

record Sentinel =
  Method :: string
  Path :: "string list"
  Rules :: "Stmt list list list"

text \<open>The first inner loop of \<open>makeSentinels\<close>: the non-empty pieces of the path.\<close>

fun path_loop :: "string list \<Rightarrow> string list \<Rightarrow> string list" where
  "path_loop path [] = path"
| "path_loop path (val # vals) =
     (if length val = 0 then path_loop path vals
      else path_loop (path @ [val]) vals)"

text \<open>The second inner loop: every rule string is parsed, the first error ends it.\<close>

fun rules_loop :: "Stmt list list list \<Rightarrow> string list \<Rightarrow> error + Stmt list list list" where
  "rules_loop rules [] = Inr rules"
| "rules_loop rules (val # vals) =
     (case parseRule val of
        Inl err \<Rightarrow> Inl err
      | Inr rule \<Rightarrow> rules_loop (rules @ [rule]) vals)"

fun makeSentinels_loop :: "Sentinel list \<Rightarrow> Endpoint list \<Rightarrow> error + Sentinel list" where
  "makeSentinels_loop result [] = Inr result"
| "makeSentinels_loop result (endpoint # endpoints) =
     (case rules_loop [] (Endpoint.Rules endpoint) of
        Inl err \<Rightarrow> Inl err
      | Inr rules \<Rightarrow>
          makeSentinels_loop
            (result @ [\<lparr>Sentinel.Method = Endpoint.Method endpoint,
                        Sentinel.Path = path_loop [] (Split (Endpoint.Path endpoint) (CHR ''/'')),
                        Sentinel.Rules = rules\<rparr>])
            endpoints)"

definition makeSentinels :: "Endpoint list \<Rightarrow> error + Sentinel list" where
  "makeSentinels endpoints = makeSentinels_loop [] endpoints"

section \<open>Binary encoder\<close>

subsection \<open>Sinks\<close>

text \<open>
  An \<open>io.Writer\<close> is its \<open>Write\<close> method: from the state of the sink and the bytes
  to the error returned (if any) and the new state of the sink. The encoder is written
  once over this interface and is driven with the two sinks below.
\<close>

type_synonym 'w Writer = "'w \<Rightarrow> string \<Rightarrow> error option \<times> 'w"

text \<open>\<open>NopWriter\<close> is a \<open>uint64\<close> that counts the bytes it is given.\<close>

definition NopWriter_Write :: "64 word Writer" where
  "NopWriter_Write w data = (None, w + of_nat (length data))"

definition Offset :: "64 word \<Rightarrow> 64 word" where
  "Offset w = w"

text \<open>
  The output file: the bytes written to it so far and the number of bytes the device
  still accepts. A write that does not fit stores what fits and returns an error.
\<close>

record os_file =
  contents :: string
  room :: nat

definition File_Write :: "os_file Writer" where
  "File_Write f data =
     (if length data \<le> room f
      then (None, \<lparr>contents = contents f @ data, room = room f - length data\<rparr>)
      else (Some (IOError ''short write''),
            \<lparr>contents = contents f @ take (room f) data, room = 0\<rparr>))"

text \<open>\<open>if err = ...; err != nil { return err }\<close> followed by the rest of the function:
  the rest runs on the sink as the call left it, unless the call returned an error.\<close>

definition ifOk :: "error option \<times> 'w \<Rightarrow> ('w \<Rightarrow> error option \<times> 'w) \<Rightarrow> error option \<times> 'w" where
  "ifOk r rest = (case r of (None, w) \<Rightarrow> rest w | (Some err, w) \<Rightarrow> (Some err, w))"

text \<open>\<open>for _, x := range xs { if err = f(w, x); err != nil { return err } }\<close>.\<close>

primrec forEach :: "('w \<Rightarrow> 'a \<Rightarrow> error option \<times> 'w) \<Rightarrow> 'a list \<Rightarrow> 'w \<Rightarrow> error option \<times> 'w" where
  "forEach f [] w = (None, w)"
| "forEach f (x # xs) w = ifOk (f w x) (forEach f xs)"

subsection \<open>Fixed-width integers\<close>

text \<open>\<open>binary.Write(w, binary.LittleEndian, v)\<close> for an unsigned integer of \<open>k\<close>
  bytes: the \<open>k\<close> low bytes of the value, least significant first.\<close>

primrec LittleEndian :: "nat \<Rightarrow> nat \<Rightarrow> string" where
  "LittleEndian 0 v = []"
| "LittleEndian (Suc k) v = byte (v mod 256) # LittleEndian k (v div 256)"

definition writeUint64 :: "'w Writer \<Rightarrow> 'w \<Rightarrow> 64 word \<Rightarrow> error option \<times> 'w" where
  "writeUint64 Write w val = Write w (LittleEndian 8 (unat val))"

definition writeUint32 :: "'w Writer \<Rightarrow> 'w \<Rightarrow> 32 word \<Rightarrow> error option \<times> 'w" where
  "writeUint32 Write w val = Write w (LittleEndian 4 (unat val))"

definition writeUint16 :: "'w Writer \<Rightarrow> 'w \<Rightarrow> 16 word \<Rightarrow> error option \<times> 'w" where
  "writeUint16 Write w val = Write w (LittleEndian 2 (unat val))"

definition writeUint8 :: "'w Writer \<Rightarrow> 'w \<Rightarrow> 8 word \<Rightarrow> error option \<times> 'w" where
  "writeUint8 Write w val = Write w (LittleEndian 1 (unat val))"

text \<open>\<open>uint16(len(x))\<close>: the conversion keeps the low 16 bits.\<close>

definition uint16 :: "nat \<Rightarrow> 16 word" where
  "uint16 n = of_nat n"

definition writeStr :: "'w Writer \<Rightarrow> 'w \<Rightarrow> string \<Rightarrow> error option \<times> 'w" where
  "writeStr Write w val =
     ifOk (writeUint16 Write w (uint16 (length val))) (\<lambda>w. Write w val)"

subsection \<open>Contexts\<close>

definition VERSION :: "32 word" where "VERSION = 4"

definition AUTH_HEADER :: "8 word" where "AUTH_HEADER = 11"
definition HEADERS :: "8 word" where "HEADERS = 4"
definition URLENC :: "8 word" where "URLENC = 3"
definition BASE64 :: "8 word" where "BASE64 = 9"
definition BASE64_URL :: "8 word" where "BASE64_URL = 10"
definition COOKIE :: "8 word" where "COOKIE = 8"
definition JSON :: "8 word" where "JSON = 5"
definition JSON_OBJ :: "8 word" where "JSON_OBJ = 6"
definition JSON_ARRAY :: "8 word" where "JSON_ARRAY = 7"
definition PATH :: "8 word" where "PATH = 2"
definition HTTP :: "8 word" where "HTTP = 1"
definition JWT :: "8 word" where "JWT = 12"

lemmas ctx_defs =
  AUTH_HEADER_def HEADERS_def URLENC_def BASE64_def BASE64_URL_def COOKIE_def
  JSON_def JSON_OBJ_def JSON_ARRAY_def PATH_def HTTP_def JWT_def

definition getCtxCode :: "string \<Rightarrow> error + 8 word" where
  "getCtxCode val =
     (if val = ''headers'' then Inr HEADERS
      else if val = ''urlenc'' then Inr URLENC
      else if val = ''base64'' then Inr BASE64
      else if val = ''cookie'' then Inr COOKIE
      else if val = ''json'' then Inr JSON
      else if val = ''json_obj'' then Inr JSON_OBJ
      else if val = ''json_array'' then Inr JSON_ARRAY
      else if val = ''path'' then Inr PATH
      else if val = ''http'' then Inr HTTP
      else if val = ''auth_header'' then Inr AUTH_HEADER
      else if val = ''base64_url'' then Inr BASE64_URL
      else if val = ''jwt'' then Inr JWT
      else Inl (UnknownContext val))"

text \<open>The loop of \<open>writeCtx\<close> over the pieces of the value, with its accumulator
  \<open>r\<close>; \<open>1 << n\<close> is a shift of a \<open>uint64\<close>.\<close>

fun writeCtx_loop :: "64 word \<Rightarrow> string list \<Rightarrow> error + 64 word" where
  "writeCtx_loop r [] = Inr r"
| "writeCtx_loop r (c # contexts) =
     (case getCtxCode (TrimSpace c) of
        Inl err \<Rightarrow> Inl err
      | Inr n \<Rightarrow> writeCtx_loop (r OR push_bit (unat n) 1) contexts)"

definition writeCtx :: "'w Writer \<Rightarrow> 'w \<Rightarrow> string \<Rightarrow> error option \<times> 'w" where
  "writeCtx Write w val =
     (case writeCtx_loop 0 (Split val (CHR ''|'')) of
        Inl err \<Rightarrow> (Some err, w)
      | Inr r \<Rightarrow> writeUint64 Write w r)"

subsection \<open>Sentinel records\<close>

text \<open>\<open>writeSentinel\<close>. Its three nested loops are \<open>forEach\<close> over the bodies
  \<open>writeStmt\<close> (one statement), \<open>writeStmts\<close> (one clause: the count, then the
  statements) and \<open>writeGroups\<close> (one rule: the count, then the clauses).\<close>

definition writeStmt :: "'w Writer \<Rightarrow> 'w \<Rightarrow> Stmt \<Rightarrow> error option \<times> 'w" where
  "writeStmt Write w stmt =
     ifOk (writeUint8 Write w (Var stmt)) (\<lambda>w.
     ifOk (writeUint8 Write w (Op stmt)) (\<lambda>w.
       if Var stmt = CTX then
         ifOk (writeUint8 Write w NUMERIC) (\<lambda>w. writeCtx Write w (Val stmt))
       else if length (Regexp stmt) \<noteq> 0 then
         ifOk (writeUint8 Write w REGEXP) (\<lambda>w. writeStr Write w (Regexp stmt))
       else
         ifOk (writeUint8 Write w STRING) (\<lambda>w. writeStr Write w (Val stmt))))"

definition writeStmts :: "'w Writer \<Rightarrow> 'w \<Rightarrow> Stmt list \<Rightarrow> error option \<times> 'w" where
  "writeStmts Write w stmts =
     ifOk (writeUint16 Write w (uint16 (length stmts))) (forEach (writeStmt Write) stmts)"

definition writeGroups :: "'w Writer \<Rightarrow> 'w \<Rightarrow> Stmt list list \<Rightarrow> error option \<times> 'w" where
  "writeGroups Write w groups =
     ifOk (writeUint16 Write w (uint16 (length groups))) (forEach (writeStmts Write) groups)"

definition writeSentinel :: "'w Writer \<Rightarrow> 'w \<Rightarrow> Sentinel \<Rightarrow> error option \<times> 'w" where
  "writeSentinel Write w snt =
     ifOk (writeStr Write w (Sentinel.Method snt)) (\<lambda>w.
     ifOk (writeUint16 Write w (uint16 (length (Sentinel.Path snt)))) (\<lambda>w.
     ifOk (forEach (writeStr Write) (Sentinel.Path snt) w) (\<lambda>w.
     ifOk (writeUint16 Write w (uint16 (length (Sentinel.Rules snt)))) (\<lambda>w.
     forEach (writeGroups Write) (Sentinel.Rules snt) w))))"

subsection \<open>Offset table and output file\<close>

text \<open>\<open>offsetTable\<close>: the dry run against a \<open>NopWriter\<close>. The results of the writes
  of the header are dropped, as in the source (\<open>_ = binary.Write(...)\<close>).\<close>

primrec zeros_loop :: "nat \<Rightarrow> 64 word \<Rightarrow> 64 word" where
  "zeros_loop 0 w = w"
| "zeros_loop (Suc i) w = zeros_loop i (snd (writeUint64 NopWriter_Write w 0))"

fun offsetTable_loop :: "64 word list \<Rightarrow> 64 word \<Rightarrow> Sentinel list \<Rightarrow> error + 64 word list" where
  "offsetTable_loop result w [] = Inr result"
| "offsetTable_loop result w (snt # snts) =
     (case writeSentinel NopWriter_Write w snt of
        (Some err, w') \<Rightarrow> Inl err
      | (None, w') \<Rightarrow> offsetTable_loop (result @ [Offset w]) w' snts)"

definition offsetTable :: "Sentinel list \<Rightarrow> error + 64 word list" where
  "offsetTable snts =
     (let w = 0;
          w = snd (writeUint32 NopWriter_Write w 0);
          w = snd (writeUint16 NopWriter_Write w (uint16 (length snts)));
          w = zeros_loop (length snts) w;
          w = snd (writeUint16 NopWriter_Write w (uint16 (length snts)))
      in offsetTable_loop [] w snts)"

text \<open>
  \<open>writeSentinels\<close>. \<open>opened\<close> is what \<open>os.OpenFile\<close> with
  \<open>O_WRONLY|O_CREATE|O_TRUNC\<close> returns: an error, or the destination file, created
  or cut to length 0, with the number of bytes \<open>room\<close> that the device accepts. The
  second component of the result is the file left at the destination path; it is
  \<open>None\<close> when the file has not been opened, so that the path is as it was.
\<close>

definition writeSentinels :: "error + nat \<Rightarrow> Sentinel list \<Rightarrow> error option \<times> os_file option" where
  "writeSentinels opened snts =
     (case opened of
        Inl err \<Rightarrow> (Some err, None)
      | Inr space \<Rightarrow>
          (case
             ifOk (writeUint32 File_Write \<lparr>contents = [], room = space\<rparr> VERSION) (\<lambda>w.
               case offsetTable snts of
                 Inl err \<Rightarrow> (Some err, w)
               | Inr offs \<Rightarrow>
                   ifOk (writeUint16 File_Write w (uint16 (length offs))) (\<lambda>w.
                   ifOk (forEach (writeUint64 File_Write) offs w) (\<lambda>w.
                   ifOk (writeUint16 File_Write w (uint16 (length snts))) (\<lambda>w.
                   forEach (writeSentinel File_Write) snts w))))
           of (err, w) \<Rightarrow> (err, Some w)))"

subsection \<open>The program\<close>

text \<open>
  What \<open>json.Decoder.Decode\<close> finds in the input file: a document that decodes to
  a list of endpoints, no JSON value at all (\<open>io.EOF\<close>), or anything else.
\<close>

datatype json_input = Document "Endpoint list" | NoValue | Malformed string

text \<open>\<open>readEndpoints\<close>; \<open>opened\<close> is the result of \<open>os.Open\<close>. On \<open>io.EOF\<close>
  the variable \<open>result\<close> is still the nil slice.\<close>

definition readEndpoints :: "error + json_input \<Rightarrow> error + Endpoint list" where
  "readEndpoints opened =
     (case opened of
        Inl err \<Rightarrow> Inl err
      | Inr file \<Rightarrow>
          (case file of
             Document result \<Rightarrow> Inr result
           | NoValue \<Rightarrow> Inr []
           | Malformed msg \<Rightarrow> Inl (DecodeError msg)))"

text \<open>\<open>main\<close> without the debug output: the error that \<open>log.Fatalln\<close> reports (if
  any) and the file left at the output path (if it was opened).\<close>

definition main :: "error + json_input \<Rightarrow> error + nat \<Rightarrow> error option \<times> os_file option" where
  "main input output =
     (case readEndpoints input of
        Inl err \<Rightarrow> (Some err, None)
      | Inr epts \<Rightarrow>
          (case makeSentinels epts of
             Inl err \<Rightarrow> (Some err, None)
           | Inr snts \<Rightarrow> writeSentinels output snts))"

section \<open>The wire format as the specification words it\<close>

text \<open>
  The byte stream of the specification, built without a sink. An encoding is the
  bytes produced and, when encoding stops early, the error that stops it; \<open>then_enc\<close>
  puts one encoding after another. Counts and lengths are 2-byte fields and hold the
  value modulo \<open>2^16\<close>.
\<close>

type_synonym encoding = "string \<times> error option"

definition then_enc :: "encoding \<Rightarrow> encoding \<Rightarrow> encoding" where
  "then_enc a b = (case snd a of None \<Rightarrow> (fst a @ fst b, snd b) | Some err \<Rightarrow> a)"

primrec all_enc :: "encoding list \<Rightarrow> encoding" where
  "all_enc [] = ([], None)"
| "all_enc (a # as) = then_enc a (all_enc as)"

definition spec_count :: "nat \<Rightarrow> encoding" where
  "spec_count n = (LittleEndian 2 (n mod 2 ^ 16), None)"

definition spec_string :: "string \<Rightarrow> encoding" where
  "spec_string val = then_enc (spec_count (length val)) (val, None)"

text \<open>The table of context codes of the specification.\<close>

definition spec_context_code :: "string \<Rightarrow> nat option" where
  "spec_context_code name =
     map_of [(''http'', 1), (''path'', 2), (''urlenc'', 3), (''headers'', 4), (''json'', 5),
             (''json_obj'', 6), (''json_array'', 7), (''cookie'', 8), (''base64'', 9),
             (''base64_url'', 10), (''auth_header'', 11), (''jwt'', 12)] name"

definition spec_context_names :: "string \<Rightarrow> string list" where
  "spec_context_names val = map TrimSpace (Split val (CHR ''|''))"

primrec spec_bitmask :: "string list \<Rightarrow> 64 word" where
  "spec_bitmask [] = 0"
| "spec_bitmask (name # names) =
     (case spec_context_code name of
        None \<Rightarrow> spec_bitmask names
      | Some code \<Rightarrow> push_bit code 1 OR spec_bitmask names)"

definition spec_contexts :: "string \<Rightarrow> encoding" where
  "spec_contexts val =
     (case find (\<lambda>name. spec_context_code name = None) (spec_context_names val) of
        Some name \<Rightarrow> ([], Some (UnknownContext name))
      | None \<Rightarrow> (LittleEndian 8 (unat (spec_bitmask (spec_context_names val))), None))"

definition spec_statement :: "Stmt \<Rightarrow> encoding" where
  "spec_statement stmt =
     then_enc ([byte (unat (Var stmt)), byte (unat (Op stmt))], None)
       (if Var stmt = 1 then then_enc ([byte 1], None) (spec_contexts (Val stmt))
        else if Regexp stmt \<noteq> [] then then_enc ([byte 3], None) (spec_string (Regexp stmt))
        else then_enc ([byte 2], None) (spec_string (Val stmt)))"

definition spec_clause :: "Stmt list \<Rightarrow> encoding" where
  "spec_clause stmts = then_enc (spec_count (length stmts)) (all_enc (map spec_statement stmts))"

definition spec_rule :: "Stmt list list \<Rightarrow> encoding" where
  "spec_rule clauses = then_enc (spec_count (length clauses)) (all_enc (map spec_clause clauses))"

definition spec_sentinel :: "Sentinel \<Rightarrow> encoding" where
  "spec_sentinel snt =
     then_enc (spec_string (Sentinel.Method snt))
     (then_enc (spec_count (length (Sentinel.Path snt)))
     (then_enc (all_enc (map spec_string (Sentinel.Path snt)))
     (then_enc (spec_count (length (Sentinel.Rules snt)))
       (all_enc (map spec_rule (Sentinel.Rules snt))))))"

text \<open>Sending an encoding to a sink: its bytes are written, and its error (if any) is
  returned unless the write fails first.\<close>

definition emit :: "'w Writer \<Rightarrow> 'w \<Rightarrow> encoding \<Rightarrow> error option \<times> 'w" where
  "emit Write w a = ifOk (Write w (fst a)) (\<lambda>w. (snd a, w))"

text \<open>What the proofs need of a sink: writing nothing changes nothing, and two writes
  in a row are one write of both pieces.\<close>

definition sink :: "'w Writer \<Rightarrow> bool" where
  "sink Write \<longleftrightarrow>
     (\<forall>w. Write w [] = (None, w))
     \<and> (\<forall>w a b. ifOk (Write w a) (\<lambda>w. Write w b) = Write w (a @ b))"

text \<open>The offset table of the specification: the absolute position of every record,
  given the records; and the whole stream.\<close>

primrec spec_offsets :: "nat \<Rightarrow> string list \<Rightarrow> nat list" where
  "spec_offsets pos [] = []"
| "spec_offsets pos (r # rs) = pos # spec_offsets (pos + length r) rs"

definition spec_stream :: "string list \<Rightarrow> string" where
  "spec_stream recs =
     LittleEndian 4 4 @ LittleEndian 2 (length recs mod 2 ^ 16)
       @ concat (map (LittleEndian 8) (spec_offsets (4 + 2 + 8 * length recs + 2) recs))
       @ LittleEndian 2 (length recs mod 2 ^ 16) @ concat recs"

text \<open>Where the \<open>i\<close>-th record begins in the stream: after the version, the two
  counts, the offset table and the records before it.\<close>

definition record_start :: "string list \<Rightarrow> nat \<Rightarrow> nat" where
  "record_start recs i = 4 + 2 + 8 * length recs + 2 + length (concat (take i recs))"

primrec le_value :: "string \<Rightarrow> nat" where
  "le_value [] = 0"
| "le_value (b # bs) = of_char b + 256 * le_value bs"

section \<open>Notions used to state the properties\<close>

text \<open>A statement is complete when it has a field, an operator and a non-empty
  value (string or regex), or when its operator is \<open>block\<close> or \<open>pass\<close>.\<close>

definition complete :: "Stmt \<Rightarrow> bool" where
  "complete stmt \<longleftrightarrow>
     (Var stmt \<noteq> 0 \<and> Op stmt \<noteq> 0 \<and> (Val stmt \<noteq> [] \<or> Regexp stmt \<noteq> []))
     \<or> Op stmt = BLOCK \<or> Op stmt = PASS"

fun assignTokens :: "Stmt \<Rightarrow> string list \<Rightarrow> error + Stmt" where
  "assignTokens cur [] = Inr cur"
| "assignTokens cur (token # tokens) =
     (case assignToken cur token of
        Inl err \<Rightarrow> Inl err
      | Inr cur \<Rightarrow> assignTokens cur tokens)"

text \<open>The runes that \<open>ReadRune\<close> reads from a buffer one after the other, and the
  body of a literal as the scanner keeps it: the runes after the opening delimiter up
  to the closing one, where a backslash is left out and the rune after it is kept
  whatever it is. \<open>None\<close> when the input ends inside the literal.\<close>

function runes_of :: "string \<Rightarrow> rune list" where
  "runes_of buf =
     (case ReadRune buf of
        None \<Rightarrow> []
      | Some (r, rest) \<Rightarrow> r # runes_of rest)"
  by pat_completeness auto
termination
  by (relation "measure length") (auto simp: ReadRune_shorter)

declare runes_of.simps [simp del]

fun literal_body :: "rune \<Rightarrow> rune list \<Rightarrow> rune list option" where
  "literal_body delim [] = None"
| "literal_body delim (r # rs) =
     (if r = 0x5C then
        (case rs of
           [] \<Rightarrow> None
         | e # rs' \<Rightarrow> map_option (\<lambda>body. e # body) (literal_body delim rs'))
      else if r = delim then Some [r]
      else map_option (\<lambda>body. r # body) (literal_body delim rs))"

text \<open>The context names of the \<open>$ctx\<close> statements of the sentinels, in the order in
  which the encoder meets them, and the names that \<open>getCtxCode\<close> rejects.\<close>

definition stmt_ctx_names :: "Stmt \<Rightarrow> string list" where
  "stmt_ctx_names stmt = (if Var stmt = CTX then map TrimSpace (Split (Val stmt) (CHR ''|'')) else [])"

definition sentinel_ctx_names :: "Sentinel \<Rightarrow> string list" where
  "sentinel_ctx_names snt =
     concat (map (\<lambda>groups. concat (map (\<lambda>stmts. concat (map stmt_ctx_names stmts)) groups))
               (Sentinel.Rules snt))"

definition ctx_names :: "Sentinel list \<Rightarrow> string list" where
  "ctx_names snts = concat (map sentinel_ctx_names snts)"

definition unknown_ctx :: "string \<Rightarrow> bool" where
  "unknown_ctx name \<longleftrightarrow> isl (getCtxCode name)"

definition ctx_error :: "string list \<Rightarrow> error option" where
  "ctx_error names = map_option UnknownContext (find unknown_ctx names)"

text \<open>The path of an endpoint as the specification compiles it.\<close>

definition compiled_path :: "Endpoint \<Rightarrow> string list" where
  "compiled_path endpoint = filter (\<lambda>val. val \<noteq> []) (Split (Endpoint.Path endpoint) (CHR ''/''))"

section \<open>Examples\<close>

definition ex_endpoints :: "Endpoint list" where
  "ex_endpoints =
     [\<lparr>Endpoint.Method = ''POST'', Endpoint.Path = ''/api/*'', Endpoint.Rules = [''pass'']\<rparr>,
      \<lparr>Endpoint.Method = ''*'', Endpoint.Path = ''/'', Endpoint.Rules = []\<rparr>,
      \<lparr>Endpoint.Method = '''', Endpoint.Path = ''/a//b/'', Endpoint.Rules = [''block'']\<rparr>]"

definition ex_sentinels :: "Sentinel list" where
  "ex_sentinels =
     [\<lparr>Sentinel.Method = ''GET'', Sentinel.Path = [''a''],
        Sentinel.Rules = [[[\<lparr>Var = 1, Op = 3, Val = ''json_obj | json_array'', Regexp = []\<rparr>,
                          \<lparr>Var = 2, Op = 4, Val = [], Regexp = ''/x/''\<rparr>],
                         [\<lparr>Var = 0, Op = 1, Val = [], Regexp = []\<rparr>]]]\<rparr>,
      \<lparr>Sentinel.Method = ''*'', Sentinel.Path = [],
        Sentinel.Rules = [[[\<lparr>Var = 0, Op = 2, Val = [], Regexp = []\<rparr>]]]\<rparr>]"

definition ex_compiled :: "Sentinel list" where
  "ex_compiled =
     [\<lparr>Sentinel.Method = ''POST'', Sentinel.Path = [''api'', ''*''],
        Sentinel.Rules = [[[\<lparr>Var = 0, Op = 2, Val = [], Regexp = []\<rparr>]]]\<rparr>,
      \<lparr>Sentinel.Method = ''*'', Sentinel.Path = [], Sentinel.Rules = []\<rparr>,
      \<lparr>Sentinel.Method = '''', Sentinel.Path = [''a'', ''b''],
        Sentinel.Rules = [[[\<lparr>Var = 0, Op = 1, Val = [], Regexp = []\<rparr>]]]\<rparr>]"

definition ex_output :: os_file where
  "ex_output =
     \<lparr>contents =
        [CHR 0x04, CHR 0x00, CHR 0x00, CHR 0x00, CHR 0x02, CHR 0x00,
         CHR 0x18, CHR 0x00, CHR 0x00, CHR 0x00, CHR 0x00, CHR 0x00, CHR 0x00, CHR 0x00,
         CHR 0x42, CHR 0x00, CHR 0x00, CHR 0x00, CHR 0x00, CHR 0x00, CHR 0x00, CHR 0x00,
         CHR 0x02, CHR 0x00,
         CHR 0x03, CHR 0x00, CHR ''G'', CHR ''E'', CHR ''T'', CHR 0x01, CHR 0x00,
         CHR 0x01, CHR 0x00, CHR ''a'', CHR 0x01, CHR 0x00, CHR 0x02, CHR 0x00,
         CHR 0x02, CHR 0x00, CHR 0x01, CHR 0x03, CHR 0x01, CHR 0xC0, CHR 0x00,
         CHR 0x00, CHR 0x00, CHR 0x00, CHR 0x00, CHR 0x00, CHR 0x00, CHR 0x02,
         CHR 0x04, CHR 0x03, CHR 0x03, CHR 0x00, CHR ''/'', CHR ''x'', CHR ''/'',
         CHR 0x01, CHR 0x00, CHR 0x00, CHR 0x01, CHR 0x02, CHR 0x00, CHR 0x00,
         CHR 0x01, CHR 0x00, CHR ''*'', CHR 0x00, CHR 0x00, CHR 0x01, CHR 0x00,
         CHR 0x01, CHR 0x00, CHR 0x01, CHR 0x00, CHR 0x00, CHR 0x02, CHR 0x02,
         CHR 0x00, CHR 0x00],
      room = 18\<rparr>"

definition jsonx_endpoints :: "Endpoint list" where
  "jsonx_endpoints =
     [\<lparr>Endpoint.Method = ''POST'', Endpoint.Path = ''/api'',
        Endpoint.Rules = [''$ctx == '' @ [CHR 0x27] @ ''jsonx'' @ [CHR 0x27]]\<rparr>]"

definition jsonx_sentinels :: "Sentinel list" where
  "jsonx_sentinels =
     [\<lparr>Sentinel.Method = ''POST'', Sentinel.Path = [''api''],
        Sentinel.Rules = [[[\<lparr>Var = 1, Op = 3, Val = ''jsonx'', Regexp = []\<rparr>]]]\<rparr>]"

definition empty_sentinel :: Sentinel where
  "empty_sentinel = \<lparr>Sentinel.Method = [], Sentinel.Path = [], Sentinel.Rules = []\<rparr>"

definition many_sentinels :: "Sentinel list" where
  "many_sentinels = replicate 65536 empty_sentinel"

definition empty_record :: string where
  "empty_record = LittleEndian 2 0 @ LittleEndian 2 0 @ LittleEndian 2 0"

definition quoted_a :: string where
  "quoted_a = [CHR 0x27, CHR ''a'', CHR 0x27]"

definition ctx_stmt :: Stmt where
  "ctx_stmt = \<lparr>Var = 1, Op = 3, Val = ''json_obj|json_array'', Regexp = []\<rparr>"

definition fresh_file :: os_file where
  "fresh_file = \<lparr>contents = [], room = 100\<rparr>"

definition long_value :: string where
  "long_value = replicate 65536 (CHR ''a'')"

definition ex_record_file :: os_file where
  "ex_record_file =
     \<lparr>contents =
        [CHR 0x01, CHR 0x00, CHR ''*'', CHR 0x00, CHR 0x00, CHR 0x01, CHR 0x00,
         CHR 0x01, CHR 0x00, CHR 0x01, CHR 0x00, CHR 0x00, CHR 0x02, CHR 0x02,
         CHR 0x00, CHR 0x00],
      room = 84\<rparr>"

section \<open>Facts about the library functions and the tokenizer\<close>

lemma ReadRune_ascii: "(of_char c :: nat) < 0x80 \<Longrightarrow> ReadRune (c # cs) = Some (of_char c, cs)"
  by (simp add: ReadRune_def DecodeRune_def)

lemma WriteRune_ascii: "(of_char c :: nat) < 0x80 \<Longrightarrow> WriteRune (of_char c) = [c]"
  by (simp add: WriteRune_def byte_def)

lemma ReadRune_Nil [simp]: "ReadRune [] = None"
  by (simp add: ReadRune_def)

lemma scanDelim_escape:
  "ReadRune src = Some (0x5C, src') \<Longrightarrow> ReadRune src' = Some (r, src'') \<Longrightarrow>
   scanDelim dst src delim = scanDelim (dst @ WriteRune r) src'' delim"
  by (simp add: scanDelim_def scanDelim_loop.simps [of False dst src]
        scanDelim_loop.simps [of True dst src'])

lemma scanDelim_plain:
  "ReadRune src = Some (r, src') \<Longrightarrow> r \<noteq> 0x5C \<Longrightarrow> r \<noteq> delim \<Longrightarrow>
   scanDelim dst src delim = scanDelim (dst @ WriteRune r) src' delim"
  by (simp add: scanDelim_def scanDelim_loop.simps [of False dst src])

lemma scanDelim_close:
  "ReadRune src = Some (delim, src') \<Longrightarrow> delim \<noteq> 0x5C \<Longrightarrow>
   scanDelim dst src delim = Inr (dst @ WriteRune delim, src')"
  by (simp add: scanDelim_def scanDelim_loop.simps [of False dst src])

lemma scanDelim_eof:
  "ReadRune src = None \<Longrightarrow> scanDelim dst src delim = Inl (Fatal ''invalid string'')"
  by (simp add: scanDelim_def scanDelim_loop.simps [of False dst src])

lemma scanDelim_escape_eof:
  "ReadRune src = Some (0x5C, src') \<Longrightarrow> ReadRune src' = None \<Longrightarrow>
   scanDelim dst src delim = Inl (Fatal ''invalid string'')"
  by (simp add: scanDelim_def scanDelim_loop.simps [of False dst src]
        scanDelim_loop.simps [of True dst src'])

lemma ReadRune_backslash: "ReadRune (CHR 0x5C # cs) = Some (0x5C, cs)"
  using ReadRune_ascii [of "CHR 0x5C" cs] by simp

lemma ReadRune_quote: "ReadRune (CHR 0x27 # cs) = Some (0x27, cs)"
  using ReadRune_ascii [of "CHR 0x27" cs] by simp

lemma ReadRune_slash: "ReadRune (CHR ''/'' # cs) = Some (0x2F, cs)"
  using ReadRune_ascii [of "CHR ''/''" cs] by simp

lemma ReadRune_colon: "ReadRune (CHR '':'' # cs) = Some (0x3A, cs)"
  using ReadRune_ascii [of "CHR '':''" cs] by simp

lemma IsSpace_marks [simp]: "\<not> IsSpace 0x27" "\<not> IsSpace 0x2F" "\<not> IsSpace 0x3A" "\<not> IsSpace 0x5C"
  by (simp_all add: IsSpace_def)

lemma WriteRune_quote: "WriteRune 0x27 = [CHR 0x27]"
  using WriteRune_ascii [of "CHR 0x27"] by simp

lemma WriteRune_slash: "WriteRune 0x2F = ''/''"
  using WriteRune_ascii [of "CHR ''/''"] by simp

lemma WriteRune_colon: "WriteRune 0x3A = '':''"
  using WriteRune_ascii [of "CHR '':''"] by simp

lemma runes_of_None: "ReadRune buf = None \<Longrightarrow> runes_of buf = []"
  by (simp add: runes_of.simps [of buf])

lemma runes_of_Some: "ReadRune buf = Some (r, rest) \<Longrightarrow> runes_of buf = r # runes_of rest"
  by (simp add: runes_of.simps [of buf])

lemma scanDelim_literal_body:
  "map_sum id fst (scanDelim dst src delim)
   = (case literal_body delim (runes_of src) of
        None \<Rightarrow> Inl (Fatal ''invalid string'')
      | Some body \<Rightarrow> Inr (dst @ concat (map WriteRune body)))"
proof (induction "length src" arbitrary: src dst rule: less_induct)
  case less
  show ?case
  proof (cases "ReadRune src")
    case None
    then show ?thesis by (simp add: scanDelim_eof runes_of_None)
  next
    case (Some a)
    obtain r src' where a: "a = (r, src')" by (cases a)
    note rd = Some [unfolded a]
    have sh: "length src' < length src" using rd by (rule ReadRune_shorter)
    show ?thesis
    proof (cases "r = 0x5C")
      case True
      show ?thesis
      proof (cases "ReadRune src'")
        case None
        with rd True show ?thesis
          by (simp add: scanDelim_escape_eof runes_of_Some runes_of_None)
      next
        case (Some b)
        obtain e src'' where b: "b = (e, src'')" by (cases b)
        note rd' = Some [unfolded b]
        have "length src'' < length src"
          using ReadRune_shorter [OF rd'] sh by simp
        from less [OF this, of "dst @ WriteRune e"] rd rd' True
        show ?thesis
          by (simp add: scanDelim_escape [of src src' e src''] runes_of_Some
                split: option.splits)
      qed
    next
      case False
      show ?thesis
      proof (cases "r = delim")
        case True
        with rd False show ?thesis
          by (simp add: scanDelim_close runes_of_Some)
      next
        case neq: False
        from less [OF sh, of "dst @ WriteRune r"] rd False neq
        show ?thesis
          by (simp add: scanDelim_plain [of src r src'] runes_of_Some split: option.splits)
      qed
    qed
  qed
qed

lemma scanGroups_loop_prefix:
  "scanGroups_loop (pre @ result) grp buf
   = (case scanGroups_loop result grp buf of
        Inl e \<Rightarrow> Inl e
      | Inr (result', grp') \<Rightarrow> Inr (pre @ result', grp'))"
proof (induction result grp buf rule: scanGroups_loop.induct)
  case (1 result grp buf)
  show ?case
  proof (cases "ReadRune buf")
    case None
    then show ?thesis
      by (simp add: scanGroups_loop.simps [of _ grp buf])
  next
    case (Some a)
    obtain r buf' where a: "a = (r, buf')" by (cases a)
    note rd = Some [unfolded a]
    note IH = "1.IH" [OF rd refl]
    consider (space) "IsSpace r"
      | (colon) "\<not> IsSpace r" "r = 0x3A"
      | (quote) "\<not> IsSpace r" "r \<noteq> 0x3A" "r = 0x27"
      | (slash) "\<not> IsSpace r" "r \<noteq> 0x3A" "r \<noteq> 0x27" "r = 0x2F"
      | (word) "\<not> IsSpace r" "r \<noteq> 0x3A" "r \<noteq> 0x27" "r \<noteq> 0x2F"
      by blast
    then show ?thesis
    proof cases
      case space
      with IH(1) rd show ?thesis by (simp add: scanGroups_loop.simps [of _ grp buf])
    next
      case colon
      with IH(2) rd show ?thesis by (simp add: scanGroups_loop.simps [of _ grp buf])
    next
      case quote
      show ?thesis
      proof (cases "scanDelim (WriteRune r) buf' 0x27")
        case (Inl e)
        with quote rd show ?thesis by (simp add: scanGroups_loop.simps [of _ grp buf])
      next
        case (Inr b)
        obtain sb buf'' where b: "b = (sb, buf'')" by (cases b)
        from IH(3) [OF quote(1) quote(2) quote(3) Inr [unfolded b] refl] quote rd Inr b
        show ?thesis by (simp add: scanGroups_loop.simps [of _ grp buf])
      qed
    next
      case slash
      show ?thesis
      proof (cases "scanDelim (WriteRune r) buf' 0x2F")
        case (Inl e)
        with slash rd show ?thesis by (simp add: scanGroups_loop.simps [of _ grp buf])
      next
        case (Inr b)
        obtain sb buf'' where b: "b = (sb, buf'')" by (cases b)
        from IH(4) [OF slash(1) slash(2) slash(3) slash(4) Inr [unfolded b] refl] slash rd Inr b
        show ?thesis by (simp add: scanGroups_loop.simps [of _ grp buf])
      qed
    next
      case word
      obtain sb buf'' where b: "scanWord (WriteRune r) buf' = (sb, buf'')"
        by (cases "scanWord (WriteRune r) buf'")
      from IH(5) [OF word(1) word(2) word(3) word(4) b [symmetric]] word rd b
      show ?thesis by (simp add: scanGroups_loop.simps [of _ grp buf])
    qed
  qed
qed

lemma scanGroups_colon:
  "scanGroups (CHR '':'' # rest)
   = (case scanGroups rest of Inl e \<Rightarrow> Inl e | Inr groups \<Rightarrow> Inr ([] # groups))"
proof -
  have "scanGroups_loop [] [] (CHR '':'' # rest) = scanGroups_loop ([[]] @ []) [] rest"
    by (simp add: scanGroups_loop.simps [of "[]" "[]" "CHR '':'' # rest"] ReadRune_colon)
  then show ?thesis
    by (simp only: scanGroups_def scanGroups_loop_prefix)
       (simp split: sum.splits prod.splits)
qed

lemma parseRule_loop_prefix:
  "parseRule_loop (pre @ result) groups
   = (case parseRule_loop result groups of Inl e \<Rightarrow> Inl e | Inr r \<Rightarrow> Inr (pre @ r))"
  by (induction groups arbitrary: result) (simp_all split: sum.splits)

lemma parseGroup_Nil: "parseGroup [] = Inr []"
  by (simp add: parseGroup_def)

lemma parseRule_colon:
  "parseRule (CHR '':'' # rest)
   = (case parseRule rest of Inl e \<Rightarrow> Inl e | Inr clauses \<Rightarrow> Inr ([] # clauses))"
proof (cases "scanGroups rest")
  case (Inl e)
  then show ?thesis by (simp add: parseRule_def scanGroups_colon)
next
  case (Inr groups)
  have "parseRule_loop [] ([] # groups) = parseRule_loop ([[]] @ []) groups"
    by (simp add: parseGroup_Nil)
  with Inr show ?thesis
    by (simp only: parseRule_def scanGroups_colon parseRule_loop_prefix)
       (simp split: sum.splits)
qed

lemma scanWord_colon: "scanWord dst (CHR '':'' # rest) = scanWord (dst @ '':'') rest"
  by (simp add: scanWord.simps [of dst "CHR '':'' # rest"] ReadRune_colon WriteRune_colon)

section \<open>Facts about the condition parser and the model builder\<close>

lemma parseGroup_loop_step:
  "assignToken cur token = Inr cur' \<Longrightarrow>
   parseGroup_loop result cur (token # tokens)
     = (if complete cur' then parseGroup_loop (result @ [cur']) Stmt0 tokens
        else parseGroup_loop result cur' tokens)"
  by (auto simp: complete_def)

lemma parseGroup_loop_error:
  "assignToken cur token = Inl err \<Longrightarrow> parseGroup_loop result cur (token # tokens) = Inl err"
  by simp

declare parseGroup_loop.simps(2) [simp del]

lemma parseGroup_loop_complete:
  "parseGroup_loop result cur tokens = Inr (result', cur') \<Longrightarrow>
   \<exists>new. result' = result @ new \<and> (\<forall>stmt \<in> set new. complete stmt)"
proof (induction tokens arbitrary: result cur)
  case Nil
  then show ?case by simp
next
  case (Cons token tokens)
  from Cons.prems obtain c where c: "assignToken cur token = Inr c"
    by (cases "assignToken cur token") (simp_all add: parseGroup_loop_error)
  show ?case
  proof (cases "complete c")
    case True
    with Cons.prems c have "parseGroup_loop (result @ [c]) Stmt0 tokens = Inr (result', cur')"
      by (simp add: parseGroup_loop_step)
    from Cons.IH [OF this] obtain new where
      "result' = (result @ [c]) @ new" "\<forall>stmt \<in> set new. complete stmt" by blast
    with True show ?thesis by (intro exI [of _ "c # new"]) simp
  next
    case False
    with Cons.prems c have "parseGroup_loop result c tokens = Inr (result', cur')"
      by (simp add: parseGroup_loop_step)
    from Cons.IH [OF this] show ?thesis .
  qed
qed

lemma parseGroup_loop_append:
  "parseGroup_loop result cur (ts @ us)
   = (case parseGroup_loop result cur ts of
        Inl err \<Rightarrow> Inl err
      | Inr (result', cur') \<Rightarrow> parseGroup_loop result' cur' us)"
proof (induction ts arbitrary: result cur)
  case Nil
  show ?case by simp
next
  case (Cons t ts)
  show ?case
  proof (cases "assignToken cur t")
    case (Inl err)
    then show ?thesis by (simp add: parseGroup_loop_error)
  next
    case (Inr c)
    then show ?thesis by (cases "complete c") (simp_all add: parseGroup_loop_step Cons.IH)
  qed
qed

lemma parseGroup_loop_prefix:
  "parseGroup_loop (pre @ result) cur tokens
   = (case parseGroup_loop result cur tokens of
        Inl err \<Rightarrow> Inl err
      | Inr (result', cur') \<Rightarrow> Inr (pre @ result', cur'))"
proof (induction tokens arbitrary: result cur)
  case Nil
  show ?case by simp
next
  case (Cons t ts)
  show ?case
  proof (cases "assignToken cur t")
    case (Inl err)
    then show ?thesis by (simp add: parseGroup_loop_error)
  next
    case (Inr c)
    show ?thesis
      using Cons.IH [of "result @ [c]" Stmt0] Cons.IH [of result c]
      by (cases "complete c") (simp_all add: parseGroup_loop_step [OF Inr])
  qed
qed

lemma parseGroup_loop_never:
  "\<forall>k. 0 < k \<and> k \<le> length us \<longrightarrow> (\<exists>c. assignTokens cur (take k us) = Inr c \<and> \<not> complete c) \<Longrightarrow>
   \<exists>final. parseGroup_loop result cur us = Inr (result, final)"
proof (induction us arbitrary: cur)
  case Nil
  show ?case by simp
next
  case (Cons t us)
  from Cons.prems [rule_format, of 1] obtain c where
    "assignTokens cur [t] = Inr c" and nc: "\<not> complete c" by auto
  then have c: "assignToken cur t = Inr c" by (simp split: sum.splits)
  have "\<forall>k. 0 < k \<and> k \<le> length us \<longrightarrow> (\<exists>c'. assignTokens c (take k us) = Inr c' \<and> \<not> complete c')"
  proof (intro allI impI)
    fix k assume "0 < k \<and> k \<le> length us"
    with Cons.prems [rule_format, of "Suc k"] c
    show "\<exists>c'. assignTokens c (take k us) = Inr c' \<and> \<not> complete c'" by simp
  qed
  from Cons.IH [OF this] c nc show ?case by (simp add: parseGroup_loop_step)
qed

lemma Trim_ends:
  "\<exists>p q. s = p @ Trim s c @ q \<and> set p \<subseteq> {c} \<and> set q \<subseteq> {c}"
proof -
  let ?P = "\<lambda>x. x = c"
  let ?t = "dropWhile ?P s"
  have 1: "s = takeWhile ?P s @ ?t" by simp
  have 2: "?t = Trim s c @ rev (takeWhile ?P (rev ?t))"
    by (simp only: Trim_def rev_append [symmetric] takeWhile_dropWhile_id rev_rev_ident)
  have 3: "set (takeWhile ?P s) \<subseteq> {c}" by (auto dest: set_takeWhileD)
  have 4: "set (rev (takeWhile ?P (rev ?t))) \<subseteq> {c}" by (auto dest: set_takeWhileD)
  from 1 2 have "s = takeWhile ?P s @ Trim s c @ rev (takeWhile ?P (rev ?t))" by simp
  with 3 4 show ?thesis by blast
qed

lemma assignToken_quote:
  "HasPrefix token [CHR 0x27] \<Longrightarrow> assignToken cur token = Inr (cur\<lparr>Val := Trim token (CHR 0x27)\<rparr>)"
  by (simp add: assignToken_def)

lemma assignToken_slash:
  "\<not> HasPrefix token [CHR 0x27] \<Longrightarrow> HasPrefix token ''/'' \<Longrightarrow>
   assignToken cur token = Inr (cur\<lparr>Regexp := token\<rparr>)"
  by (simp add: assignToken_def)

lemma assignToken_block: "assignToken cur ''block'' = Inr (cur\<lparr>Op := BLOCK\<rparr>)"
  by (simp add: assignToken_def HasPrefix_def parseOp_def)

lemma assignToken_pass: "assignToken cur ''pass'' = Inr (cur\<lparr>Op := PASS\<rparr>)"
  by (simp add: assignToken_def HasPrefix_def parseOp_def)

lemma path_loop_filter: "path_loop path vals = path @ filter (\<lambda>val. val \<noteq> []) vals"
  by (induction vals arbitrary: path) simp_all

lemma makeSentinels_loop_paths:
  "makeSentinels_loop result endpoints = Inr snts \<Longrightarrow>
   \<exists>new. snts = result @ new \<and> map Sentinel.Path new = map compiled_path endpoints"
proof (induction endpoints arbitrary: result)
  case Nil
  then show ?case by simp
next
  case (Cons endpoint endpoints)
  from Cons.prems obtain rules where
    step: "makeSentinels_loop
             (result @ [\<lparr>Sentinel.Method = Endpoint.Method endpoint,
                         Sentinel.Path = path_loop [] (Split (Endpoint.Path endpoint) (CHR ''/'')),
                         Sentinel.Rules = rules\<rparr>]) endpoints = Inr snts"
    by (auto split: sum.splits)
  from Cons.IH [OF step] obtain new where
    new: "snts = (result @ [\<lparr>Sentinel.Method = Endpoint.Method endpoint,
                         Sentinel.Path = path_loop [] (Split (Endpoint.Path endpoint) (CHR ''/'')),
                         Sentinel.Rules = rules\<rparr>]) @ new"
      "map Sentinel.Path new = map compiled_path endpoints"
    by blast
  then show ?case
    by (intro exI [of _ "\<lparr>Sentinel.Method = Endpoint.Method endpoint,
                         Sentinel.Path = path_loop [] (Split (Endpoint.Path endpoint) (CHR ''/'')),
                         Sentinel.Rules = rules\<rparr> # new"])
       (simp add: path_loop_filter compiled_path_def)
qed

lemma makeSentinels_paths:
  "makeSentinels endpoints = Inr snts \<Longrightarrow> map Sentinel.Path snts = map compiled_path endpoints"
  using makeSentinels_loop_paths [of "[]" endpoints snts] by (auto simp: makeSentinels_def)

section \<open>The encoder writes the wire format to every sink\<close>

lemma sink_NopWriter: "sink NopWriter_Write"
  by (simp add: sink_def NopWriter_Write_def ifOk_def)

lemma sink_File: "sink File_Write"
  by (auto simp: sink_def File_Write_def ifOk_def)

lemma ifOk_None [simp]: "ifOk (None, w) rest = rest w"
  by (simp add: ifOk_def)

lemma ifOk_Some [simp]: "ifOk (Some err, w) rest = (Some err, w)"
  by (simp add: ifOk_def)

lemma ifOk_assoc: "ifOk (ifOk r f) g = ifOk r (\<lambda>w. ifOk (f w) g)"
  by (cases r) (auto simp: ifOk_def split: option.splits)

lemma emit_bytes: "emit Write w (bs, None) = Write w bs"
  by (cases "Write w bs") (auto simp: emit_def ifOk_def split: option.splits)

lemma emit_error: "sink Write \<Longrightarrow> emit Write w ([], Some err) = (Some err, w)"
  by (simp add: emit_def sink_def)

lemma emit_then:
  assumes "sink Write"
  shows "ifOk (emit Write w a) (\<lambda>w. emit Write w b) = emit Write w (then_enc a b)"
proof (cases "snd a")
  case None
  have "ifOk (emit Write w a) (\<lambda>w. emit Write w b)
        = ifOk (Write w (fst a)) (\<lambda>w. ifOk (Write w (fst b)) (\<lambda>w. (snd b, w)))"
    using None by (simp add: emit_def ifOk_assoc)
  also have "\<dots> = ifOk (ifOk (Write w (fst a)) (\<lambda>w. Write w (fst b))) (\<lambda>w. (snd b, w))"
    by (simp add: ifOk_assoc)
  also have "\<dots> = ifOk (Write w (fst a @ fst b)) (\<lambda>w. (snd b, w))"
    using assms by (simp add: sink_def)
  finally show ?thesis using None by (simp add: emit_def then_enc_def)
next
  case (Some err)
  then show ?thesis by (simp add: emit_def then_enc_def ifOk_assoc)
qed

lemma forEach_emit:
  assumes "sink Write" and "\<And>w x. f w x = emit Write w (g x)"
  shows "forEach f xs w = emit Write w (all_enc (map g xs))"
proof (induction xs arbitrary: w)
  case Nil
  show ?case using assms(1) by (simp add: emit_def sink_def)
next
  case (Cons x xs)
  have "forEach f xs = (\<lambda>w. emit Write w (all_enc (map g xs)))"
    by (rule ext) (rule Cons.IH)
  then have "forEach f (x # xs) w
             = ifOk (emit Write w (g x)) (\<lambda>w. emit Write w (all_enc (map g xs)))"
    by (simp only: forEach.simps assms(2))
  then show ?case by (simp add: emit_then [OF assms(1)])
qed

lemma forEach_emit_fun:
  assumes "sink Write" and "\<And>w x. f w x = emit Write w (g x)"
  shows "forEach f xs = (\<lambda>w. emit Write w (all_enc (map g xs)))"
  by (rule ext) (rule forEach_emit [OF assms])

lemma byte_mod [simp]: "byte (n mod 256) = byte n"
  by (simp add: byte_def)

lemma writeUint8_emit: "writeUint8 Write w v = emit Write w ([byte (unat v)], None)"
  by (simp add: writeUint8_def emit_bytes)

lemma writeUint16_emit: "writeUint16 Write w (uint16 n) = emit Write w (spec_count n)"
  by (simp add: writeUint16_def emit_bytes spec_count_def uint16_def unat_of_nat)

lemma writeStr_emit: "sink Write \<Longrightarrow> writeStr Write w val = emit Write w (spec_string val)"
proof -
  assume s: "sink Write"
  have "writeStr Write w val
        = ifOk (emit Write w (spec_count (length val))) (\<lambda>w. emit Write w (val, None))"
    by (simp add: writeStr_def writeUint16_emit emit_bytes)
  then show ?thesis by (simp add: emit_then [OF s] spec_string_def)
qed

lemma getCtxCode_spec:
  "getCtxCode name = (case spec_context_code name of
                        None \<Rightarrow> Inl (UnknownContext name)
                      | Some code \<Rightarrow> Inr (of_nat code))"
  by (simp add: getCtxCode_def spec_context_code_def ctx_defs)

lemma spec_context_code_bound: "spec_context_code name = Some code \<Longrightarrow> code < 256"
  by (auto simp: spec_context_code_def split: if_splits)

lemma writeCtx_loop_spec:
  "writeCtx_loop r contexts =
     (case find (\<lambda>name. spec_context_code name = None) (map TrimSpace contexts) of
        Some name \<Rightarrow> Inl (UnknownContext name)
      | None \<Rightarrow> Inr (r OR spec_bitmask (map TrimSpace contexts)))"
proof (induction contexts arbitrary: r)
  case Nil
  show ?case by simp
next
  case (Cons c contexts)
  show ?case
  proof (cases "spec_context_code (TrimSpace c)")
    case None
    then show ?thesis by (simp add: getCtxCode_spec)
  next
    case (Some code)
    then have "unat (of_nat code :: 8 word) = code"
      using spec_context_code_bound [OF Some] by (simp add: unat_of_nat)
    with Some Cons.IH [of "r OR push_bit code 1"] show ?thesis
      by (simp add: getCtxCode_spec or.assoc split: option.splits)
  qed
qed

lemma writeCtx_emit: "sink Write \<Longrightarrow> writeCtx Write w val = emit Write w (spec_contexts val)"
  by (simp add: writeCtx_def writeCtx_loop_spec spec_contexts_def spec_context_names_def
        writeUint64_def emit_bytes emit_error split: option.splits)

lemma writeStmt_emit:
  assumes "sink Write"
  shows "writeStmt Write w stmt = emit Write w (spec_statement stmt)"
proof -
  have two: "ifOk (writeUint8 Write w (Var stmt)) (\<lambda>w. ifOk (writeUint8 Write w (Op stmt)) k)
             = ifOk (emit Write w ([byte (unat (Var stmt)), byte (unat (Op stmt))], None)) k" for k
  proof -
    have "ifOk (writeUint8 Write w (Var stmt)) (\<lambda>w. ifOk (writeUint8 Write w (Op stmt)) k)
          = ifOk (ifOk (emit Write w ([byte (unat (Var stmt))], None))
                   (\<lambda>w. emit Write w ([byte (unat (Op stmt))], None))) k"
      by (simp add: writeUint8_emit ifOk_assoc)
    then show ?thesis by (simp add: emit_then [OF assms] then_enc_def)
  qed
  show ?thesis
    unfolding writeStmt_def two spec_statement_def
    by (simp add: emit_then [OF assms, symmetric] writeUint8_emit writeCtx_emit [OF assms]
          writeStr_emit [OF assms] code_defs)
qed

lemma writeStmts_emit:
  "sink Write \<Longrightarrow> writeStmts Write w stmts = emit Write w (spec_clause stmts)"
  by (simp add: writeStmts_def spec_clause_def writeUint16_emit emit_then [symmetric]
        forEach_emit_fun [where g = spec_statement] writeStmt_emit)

lemma writeGroups_emit:
  "sink Write \<Longrightarrow> writeGroups Write w groups = emit Write w (spec_rule groups)"
  by (simp add: writeGroups_def spec_rule_def writeUint16_emit emit_then [symmetric]
        forEach_emit_fun [where g = spec_clause] writeStmts_emit)

lemma writeSentinel_emit:
  "sink Write \<Longrightarrow> writeSentinel Write w snt = emit Write w (spec_sentinel snt)"
  by (simp add: writeSentinel_def spec_sentinel_def writeUint16_emit emit_then [symmetric]
        forEach_emit [where g = spec_string] forEach_emit_fun [where g = spec_rule]
        writeStr_emit writeGroups_emit)

lemma LittleEndian_mod: "LittleEndian k (v mod 256 ^ k) = LittleEndian k v"
proof (induction k arbitrary: v)
  case 0
  show ?case by simp
next
  case (Suc k)
  have a: "v mod 256 ^ Suc k mod 256 = v mod 256"
    by (simp add: mod_mod_cancel)
  have b: "v mod 256 ^ Suc k div 256 = (v div 256) mod 256 ^ k"
    by (simp add: mod_mult2_eq)
  show ?case by (simp only: LittleEndian.simps a b Suc.IH)
qed

lemma length_LittleEndian [simp]: "length (LittleEndian k v) = k"
  by (induction k arbitrary: v) simp_all

lemma NopWriter_emit:
  "emit NopWriter_Write w a = (snd a, w + of_nat (length (fst a)))"
  by (simp add: emit_def NopWriter_Write_def)

lemma all_enc_ok:
  "\<forall>a \<in> set as. snd a = None \<Longrightarrow> all_enc as = (concat (map fst as), None)"
  by (induction as) (simp_all add: then_enc_def)

lemma zeros_loop_eq: "zeros_loop n w = w + of_nat (8 * n)"
  by (induction n arbitrary: w) (simp_all add: writeUint64_def NopWriter_Write_def)

lemma offsetTable_loop_ok:
  "\<forall>snt \<in> set snts. snd (spec_sentinel snt) = None \<Longrightarrow>
   offsetTable_loop result (of_nat pos) snts
     = Inr (result @ map of_nat (spec_offsets pos (map (\<lambda>snt. fst (spec_sentinel snt)) snts)))"
proof (induction snts arbitrary: result pos)
  case Nil
  show ?case by simp
next
  case (Cons snt snts)
  have "writeSentinel NopWriter_Write (of_nat pos) snt
        = (None, of_nat (pos + length (fst (spec_sentinel snt))))"
    using Cons.prems by (simp add: writeSentinel_emit [OF sink_NopWriter] NopWriter_emit)
  with Cons.IH [of "result @ [Offset (of_nat pos)]" "pos + length (fst (spec_sentinel snt))"]
    Cons.prems
  show ?case by (simp add: Offset_def)
qed

lemma offsetTable_loop_error:
  "snd (all_enc (map spec_sentinel snts)) = Some err \<Longrightarrow>
   offsetTable_loop result w snts = Inl err"
proof (induction snts arbitrary: result w)
  case Nil
  then show ?case by simp
next
  case (Cons snt snts)
  show ?case
  proof (cases "snd (spec_sentinel snt)")
    case None
    with Cons.prems have "snd (all_enc (map spec_sentinel snts)) = Some err"
      by (simp add: then_enc_def)
    with Cons.IH None show ?thesis
      by (simp add: writeSentinel_emit [OF sink_NopWriter] NopWriter_emit)
  next
    case (Some e)
    with Cons.prems have "e = err" by (simp add: then_enc_def)
    with Some show ?thesis
      by (simp add: writeSentinel_emit [OF sink_NopWriter] NopWriter_emit)
  qed
qed

lemma offsetTable_start:
  "offsetTable snts = offsetTable_loop [] (of_nat (4 + 2 + 8 * length snts + 2)) snts"
  by (simp add: offsetTable_def Let_def writeUint32_def writeUint16_def NopWriter_Write_def
        zeros_loop_eq)

lemma offsetTable_ok:
  "\<forall>snt \<in> set snts. snd (spec_sentinel snt) = None \<Longrightarrow>
   offsetTable snts
     = Inr (map of_nat (spec_offsets (4 + 2 + 8 * length snts + 2)
                          (map (\<lambda>snt. fst (spec_sentinel snt)) snts)))"
  by (simp only: offsetTable_start offsetTable_loop_ok append_Nil)

lemma offsetTable_error:
  "snd (all_enc (map spec_sentinel snts)) = Some err \<Longrightarrow> offsetTable snts = Inl err"
  by (simp only: offsetTable_start offsetTable_loop_error)

lemma all_enc_cases:
  "(\<forall>a \<in> set as. snd a = None) \<or> (\<exists>err. snd (all_enc as) = Some err)"
proof (induction as)
  case Nil
  show ?case by simp
next
  case (Cons a as)
  show ?case
  proof (cases "snd a")
    case None
    with Cons.IH show ?thesis by (auto simp: then_enc_def)
  next
    case (Some e)
    then show ?thesis by (simp add: then_enc_def)
  qed
qed

lemma length_spec_offsets [simp]: "length (spec_offsets pos recs) = length recs"
  by (induction recs arbitrary: pos) simp_all

lemma LittleEndian8_word: "LittleEndian 8 (unat (of_nat p :: 64 word)) = LittleEndian 8 p"
proof -
  have "unat (of_nat p :: 64 word) = p mod 256 ^ 8" by (simp add: unat_of_nat)
  then show ?thesis by (simp only: LittleEndian_mod)
qed

lemma sink_append: "sink Write \<Longrightarrow> ifOk (Write w a) (\<lambda>w. Write w b) = Write w (a @ b)"
  by (simp add: sink_def)

lemma File_Write_Nil [simp]: "File_Write w [] = (None, w)"
  by (simp add: File_Write_def)

lemma writeUint64s_File:
  "forEach (writeUint64 File_Write) (map of_nat ps) w
   = File_Write w (concat (map (LittleEndian 8) ps))"
proof (induction ps arbitrary: w)
  case Nil
  show ?case by simp
next
  case (Cons p ps)
  have "forEach (writeUint64 File_Write) (map of_nat ps)
        = (\<lambda>w. File_Write w (concat (map (LittleEndian 8) ps)))"
    by (rule ext) (rule Cons.IH)
  then have "forEach (writeUint64 File_Write) (map of_nat (p # ps)) w
        = ifOk (File_Write w (LittleEndian 8 p))
            (\<lambda>w. File_Write w (concat (map (LittleEndian 8) ps)))"
    by (simp add: writeUint64_def LittleEndian8_word)
  then show ?case by (simp add: sink_append [OF sink_File])
qed

lemma writeSentinels_ok:
  assumes ok: "\<forall>snt \<in> set snts. snd (spec_sentinel snt) = None"
  shows "writeSentinels (Inr space) snts
         = (case File_Write \<lparr>contents = [], room = space\<rparr>
                  (spec_stream (map (\<lambda>snt. fst (spec_sentinel snt)) snts)) of
              (err, w) \<Rightarrow> (err, Some w))"
proof -
  define recs where "recs = map (\<lambda>snt. fst (spec_sentinel snt)) snts"
  define ps where "ps = spec_offsets (4 + 2 + 8 * length snts + 2) recs"
  have offs: "offsetTable snts = Inr (map of_nat ps)"
    using offsetTable_ok [OF ok] by (simp add: ps_def recs_def)
  have recs_enc: "all_enc (map spec_sentinel snts) = (concat recs, None)"
    using ok by (subst all_enc_ok) (simp_all add: recs_def comp_def)
  have snts_w: "forEach (writeSentinel File_Write) snts w = File_Write w (concat recs)" for w
  proof -
    have "forEach (writeSentinel File_Write) snts w
          = emit File_Write w (all_enc (map spec_sentinel snts))"
      by (rule forEach_emit [OF sink_File]) (rule writeSentinel_emit [OF sink_File])
    then show ?thesis by (simp add: recs_enc emit_bytes)
  qed
  have cnt: "writeUint16 File_Write w (uint16 (length snts))
             = File_Write w (LittleEndian 2 (length snts mod 2 ^ 16))" for w
    by (simp add: writeUint16_emit spec_count_def emit_bytes)
  have tail: "ifOk (writeUint16 File_Write w (uint16 (length ps))) (\<lambda>w.
              ifOk (forEach (writeUint64 File_Write) (map of_nat ps) w) (\<lambda>w.
              ifOk (writeUint16 File_Write w (uint16 (length snts))) (\<lambda>w.
              forEach (writeSentinel File_Write) snts w)))
            = File_Write w (LittleEndian 2 (length snts mod 2 ^ 16)
                 @ concat (map (LittleEndian 8) ps)
                 @ LittleEndian 2 (length snts mod 2 ^ 16) @ concat recs)" for w
  proof -
    have len: "length ps = length snts"
      by (simp add: ps_def recs_def)
    show ?thesis
      unfolding len cnt writeUint64s_File snts_w
      by (simp only: sink_append [OF sink_File])
  qed
  have "writeSentinels (Inr space) snts
        = (case ifOk (File_Write \<lparr>contents = [], room = space\<rparr> (LittleEndian 4 4))
                  (\<lambda>w. File_Write w (LittleEndian 2 (length snts mod 2 ^ 16)
                 @ concat (map (LittleEndian 8) ps)
                 @ LittleEndian 2 (length snts mod 2 ^ 16) @ concat recs))
           of (err, w) \<Rightarrow> (err, Some w))"
    unfolding writeSentinels_def offs by (simp add: tail writeUint32_def VERSION_def)
  then show ?thesis
    unfolding spec_stream_def ps_def recs_def
    by (simp add: sink_append [OF sink_File])
qed

lemma writeSentinels_error:
  assumes "snd (all_enc (map spec_sentinel snts)) = Some err"
  shows "writeSentinels (Inr space) snts
         = (case emit File_Write \<lparr>contents = [], room = space\<rparr> (LittleEndian 4 4, Some err) of
              (err, w) \<Rightarrow> (err, Some w))"
  unfolding writeSentinels_def offsetTable_error [OF assms]
  by (simp add: writeUint32_def VERSION_def emit_def)

lemma le_value_LittleEndian: "le_value (LittleEndian k v) = v mod 256 ^ k"
proof (induction k arbitrary: v)
  case 0
  show ?case by simp
next
  case (Suc k)
  have "le_value (LittleEndian (Suc k) v) = v mod 256 + 256 * (v div 256 mod 256 ^ k)"
    by (simp add: Suc.IH byte_def)
  also have "\<dots> = v mod 256 ^ Suc k"
    by (simp add: mod_mult2_eq)
  finally show ?case .
qed

lemma spec_offsets_nth:
  "i < length recs \<Longrightarrow> spec_offsets pos recs ! i = pos + length (concat (take i recs))"
proof (induction recs arbitrary: pos i)
  case Nil
  then show ?case by simp
next
  case (Cons r recs)
  then show ?case by (cases i) simp_all
qed

lemma concat_chunks_nth:
  "i < length ps \<Longrightarrow>
   take 8 (drop (8 * i) (concat (map (LittleEndian 8) ps))) = LittleEndian 8 (ps ! i)"
proof (induction ps arbitrary: i)
  case Nil
  then show ?case by simp
next
  case (Cons p ps)
  show ?case
  proof (cases i)
    case 0
    then show ?thesis by simp
  next
    case (Suc j)
    with Cons.prems have "j < length ps" by simp
    from Cons.IH [OF this] Suc show ?thesis by simp
  qed
qed

lemma length_concat_chunks: "length (concat (map (LittleEndian 8) ps)) = 8 * length ps"
  by (induction ps) simp_all

lemma concat_drop_nth:
  "i < length recs \<Longrightarrow>
   drop (length (concat (take i recs))) (concat recs) = recs ! i @ concat (drop (Suc i) recs)"
proof (induction recs arbitrary: i)
  case Nil
  then show ?case by simp
next
  case (Cons r recs)
  then show ?case by (cases i) simp_all
qed

lemma concat_take_Suc:
  "i < length recs \<Longrightarrow> concat (take (Suc i) recs) = concat (take i recs) @ recs ! i"
  by (simp add: take_Suc_conv_app_nth)

lemma length_concat_take_le:
  "length (concat (take i recs)) \<le> length (concat recs)"
proof -
  have "concat recs = concat (take i recs) @ concat (drop i recs)"
    by (metis append_take_drop_id concat_append)
  then have "length (concat recs) = length (concat (take i recs)) + length (concat (drop i recs))"
    by (metis length_append)
  then show ?thesis by simp
qed

lemma spec_stream_layout:
  "\<exists>header. length header = 4 + 2 + 8 * length recs + 2
     \<and> spec_stream recs = header @ concat recs
     \<and> (\<forall>i < length recs. take 8 (drop (6 + 8 * i) header) = LittleEndian 8 (record_start recs i))
     \<and> take 4 header = LittleEndian 4 4
     \<and> take 2 (drop 4 header) = LittleEndian 2 (length recs mod 2 ^ 16)
     \<and> drop (4 + 2 + 8 * length recs) header = LittleEndian 2 (length recs mod 2 ^ 16)"
proof -
  define ps where "ps = spec_offsets (4 + 2 + 8 * length recs + 2) recs"
  define table where "table = concat (map (LittleEndian 8) ps)"
  define header where
    "header = LittleEndian 4 4 @ LittleEndian 2 (length recs mod 2 ^ 16) @ table
                @ LittleEndian 2 (length recs mod 2 ^ 16)"
  have lt: "length table = 8 * length recs"
    by (simp add: table_def length_concat_chunks ps_def)
  have 1: "length header = 4 + 2 + 8 * length recs + 2"
    by (simp add: header_def lt)
  have 2: "spec_stream recs = header @ concat recs"
    by (simp add: spec_stream_def header_def table_def ps_def)
  have 3: "take 8 (drop (6 + 8 * i) header) = LittleEndian 8 (record_start recs i)"
    if i: "i < length recs" for i
  proof -
    have "drop (6 + 8 * i) header = drop (8 * i) table @ LittleEndian 2 (length recs mod 2 ^ 16)"
      using i by (simp add: header_def lt)
    moreover have "8 \<le> length (drop (8 * i) table)" using i by (simp add: lt)
    ultimately have "take 8 (drop (6 + 8 * i) header) = take 8 (drop (8 * i) table)"
      by simp
    also have "\<dots> = LittleEndian 8 (ps ! i)"
      unfolding table_def using i by (intro concat_chunks_nth) (simp add: ps_def)
    also have "ps ! i = record_start recs i"
      using i by (simp add: ps_def spec_offsets_nth record_start_def)
    finally show ?thesis .
  qed
  have 4: "take 4 header = LittleEndian 4 4" by (simp add: header_def)
  have 5: "take 2 (drop 4 header) = LittleEndian 2 (length recs mod 2 ^ 16)"
    by (simp add: header_def)
  have 6: "drop (4 + 2 + 8 * length recs) header = LittleEndian 2 (length recs mod 2 ^ 16)"
    by (simp add: header_def lt)
  from 1 2 3 4 5 6 show ?thesis by blast
qed

lemma emit_error_fst: "fst (emit Write w (bs, Some err)) \<noteq> None"
  by (cases "Write w bs") (auto simp: emit_def ifOk_def split: option.splits)

lemma writeSentinels_success:
  assumes "writeSentinels (Inr space) snts = (None, Some f)"
  shows "(\<forall>snt \<in> set snts. snd (spec_sentinel snt) = None)
       \<and> contents f = spec_stream (map (\<lambda>snt. fst (spec_sentinel snt)) snts)
       \<and> length (contents f) \<le> space
       \<and> room f = space - length (contents f)"
proof -
  have ok: "\<forall>snt \<in> set snts. snd (spec_sentinel snt) = None"
  proof (rule ccontr)
    assume "\<not> ?thesis"
    with all_enc_cases [of "map spec_sentinel snts"]
    obtain err where "snd (all_enc (map spec_sentinel snts)) = Some err" by auto
    from writeSentinels_error [OF this, of space] assms
    have "fst (emit File_Write \<lparr>contents = [], room = space\<rparr> (LittleEndian 4 4, Some err)) = None"
      by (auto split: prod.splits)
    then show False by (simp add: emit_error_fst)
  qed
  from writeSentinels_ok [OF ok, of space] assms
  show ?thesis using ok by (auto simp: File_Write_def split: if_splits)
qed

lemma bit_spec_bitmask:
  "bit (spec_bitmask names) k \<longleftrightarrow> k < 64 \<and> (\<exists>name \<in> set names. spec_context_code name = Some k)"
proof (induction names)
  case Nil
  show ?case by simp
next
  case (Cons name names)
  show ?case
  proof (cases "spec_context_code name")
    case None
    with Cons.IH show ?thesis by auto
  next
    case (Some code)
    have "bit (push_bit code (1 :: 64 word)) k \<longleftrightarrow> k < 64 \<and> k = code"
      by (auto simp: bit_simps)
    with Some Cons.IH show ?thesis by (auto simp: bit_or_iff)
  qed
qed

lemma spec_bitmask_set: "set names1 = set names2 \<Longrightarrow> spec_bitmask names1 = spec_bitmask names2"
  by (rule bit_eqI) (simp add: bit_spec_bitmask)

lemma find_None_known:
  "find (\<lambda>name. spec_context_code name = None) names = None
   \<longleftrightarrow> (\<forall>name \<in> set names. spec_context_code name \<noteq> None)"
  by (auto simp: find_None_iff)

lemma unknown_ctx_spec: "unknown_ctx name \<longleftrightarrow> spec_context_code name = None"
  by (simp add: unknown_ctx_def getCtxCode_spec split: option.splits)

lemma unknown_ctx_fun: "unknown_ctx = (\<lambda>name. spec_context_code name = None)"
  by (rule ext) (rule unknown_ctx_spec)

lemma ctx_error_Nil [simp]: "ctx_error [] = None"
  by (simp add: ctx_error_def)

lemma ctx_error_append:
  "ctx_error (xs @ ys) = (case ctx_error xs of None \<Rightarrow> ctx_error ys | Some err \<Rightarrow> Some err)"
  by (induction xs) (simp_all add: ctx_error_def)

lemma snd_then_enc: "snd (then_enc a b) = (case snd a of None \<Rightarrow> snd b | Some err \<Rightarrow> Some err)"
  by (simp add: then_enc_def split: option.splits)

lemma snd_all_enc:
  assumes "\<And>x. snd (g x) = ctx_error (h x)"
  shows "snd (all_enc (map g xs)) = ctx_error (concat (map h xs))"
  by (induction xs) (simp_all add: snd_then_enc ctx_error_append assms split: option.splits)

lemma snd_spec_count [simp]: "snd (spec_count n) = None"
  by (simp add: spec_count_def)

lemma snd_spec_string [simp]: "snd (spec_string val) = None"
  by (simp add: spec_string_def snd_then_enc)

lemma snd_spec_strings [simp]: "snd (all_enc (map spec_string vals)) = None"
  by (induction vals) (simp_all add: snd_then_enc)

lemma snd_spec_contexts: "snd (spec_contexts val) = ctx_error (spec_context_names val)"
  by (simp add: spec_contexts_def ctx_error_def unknown_ctx_fun split: option.splits)

lemma snd_spec_statement: "snd (spec_statement stmt) = ctx_error (stmt_ctx_names stmt)"
  by (simp add: spec_statement_def snd_then_enc snd_spec_contexts stmt_ctx_names_def
        spec_context_names_def CTX_def)

lemma snd_spec_clause:
  "snd (spec_clause stmts) = ctx_error (concat (map stmt_ctx_names stmts))"
  by (simp add: spec_clause_def snd_then_enc snd_all_enc [where h = stmt_ctx_names]
        snd_spec_statement)

lemma snd_spec_rule:
  "snd (spec_rule groups)
   = ctx_error (concat (map (\<lambda>stmts. concat (map stmt_ctx_names stmts)) groups))"
  by (simp add: spec_rule_def snd_then_enc
        snd_all_enc [where h = "\<lambda>stmts. concat (map stmt_ctx_names stmts)"] snd_spec_clause)

lemma snd_spec_sentinel: "snd (spec_sentinel snt) = ctx_error (sentinel_ctx_names snt)"
  by (simp add: spec_sentinel_def snd_then_enc sentinel_ctx_names_def
        snd_all_enc [where h = "\<lambda>groups. concat (map (\<lambda>stmts. concat (map stmt_ctx_names stmts)) groups)"]
        snd_spec_rule)

lemma snd_spec_sentinels: "snd (all_enc (map spec_sentinel snts)) = ctx_error (ctx_names snts)"
  by (simp add: ctx_names_def snd_all_enc [where h = sentinel_ctx_names] snd_spec_sentinel)

lemma find_Some_ex: "x \<in> set xs \<Longrightarrow> P x \<Longrightarrow> \<exists>y. find P xs = Some y"
  by (cases "find P xs") (auto simp: find_None_iff)

section \<open>Facts about the examples\<close>

lemma length_spec_stream: "length (spec_stream recs) = 4 + 2 + 8 * length recs + 2 + length (concat recs)"
  by (simp add: spec_stream_def length_concat_chunks)

lemma spec_stream_counts:
  "take 2 (drop 4 (spec_stream recs)) = LittleEndian 2 (length recs mod 2 ^ 16)"
  "take 2 (drop (4 + 2 + 8 * length recs) (spec_stream recs)) = LittleEndian 2 (length recs mod 2 ^ 16)"
  by (simp_all add: spec_stream_def length_concat_chunks)

lemma File_Write_fits:
  "length bs \<le> room f \<Longrightarrow>
   File_Write f bs = (None, \<lparr>contents = contents f @ bs, room = room f - length bs\<rparr>)"
  by (simp add: File_Write_def)

lemma spec_sentinel_empty: "spec_sentinel empty_sentinel = (empty_record, None)"
  by (simp add: spec_sentinel_def empty_sentinel_def spec_string_def spec_count_def then_enc_def
        empty_record_def)

lemma length_concat_replicate: "length (concat (replicate n r)) = n * length r"
  by (induction n) simp_all

lemma ex_output_run: "writeSentinels (Inr 100) ex_sentinels = (None, Some ex_output)"
  by code_simp

lemma jsonx_parsed: "makeSentinels jsonx_endpoints = Inr jsonx_sentinels"
  by code_simp

lemma jsonx_names: "ctx_names jsonx_sentinels = [''jsonx'']"
  by code_simp

lemma jsonx_unknown: "unknown_ctx ''jsonx''"
  by code_simp

lemma ex_compiled_run: "makeSentinels ex_endpoints = Inr ex_compiled"
  by code_simp

section \<open>The claims\<close>

subsection \<open>C1: the offset table\<close>

text \<open>
  C1. When \<open>writeSentinels\<close> succeeds, the output is the header of
  \<open>4 + 2 + 8 * n + 2\<close> bytes followed by one record per sentinel, and for every
  sentinel: the \<open>i\<close>-th 8-byte entry of the offset table (at byte \<open>6 + 8 * i\<close>) is
  the little-endian encoding of the position \<open>record_start recs i\<close> counted from the
  start of the stream; the bytes at that position are the record; the real pass,
  standing at that position, wrote exactly that record for that sentinel; and the
  counting sink advances by the length of the same record. In general, whenever
  \<open>writeSentinel\<close> succeeds on the file, the bytes it appends are as many as the
  \<open>NopWriter\<close> counts for the same sentinel.
\<close>

theorem offset_table_positions:
  "(writeSentinels (Inr space) snts = (None, Some f) \<longrightarrow>
     (\<exists>recs. length recs = length snts
          \<and> length (contents f) = 4 + 2 + 8 * length snts + 2 + length (concat recs)
          \<and> drop (4 + 2 + 8 * length snts + 2) (contents f) = concat recs
          \<and> (\<forall>i < length snts.
                take 8 (drop (6 + 8 * i) (contents f)) = LittleEndian 8 (record_start recs i)
              \<and> (record_start recs i < 2 ^ 64 \<longrightarrow>
                    le_value (take 8 (drop (6 + 8 * i) (contents f))) = record_start recs i)
              \<and> take (length (recs ! i)) (drop (record_start recs i) (contents f)) = recs ! i
              \<and> writeSentinel File_Write
                    \<lparr>contents = take (record_start recs i) (contents f),
                     room = space - record_start recs i\<rparr> (snts ! i)
                  = (None, \<lparr>contents = take (record_start recs (Suc i)) (contents f),
                            room = space - record_start recs (Suc i)\<rparr>)
              \<and> (\<forall>w. writeSentinel NopWriter_Write w (snts ! i)
                       = (None, w + of_nat (length (recs ! i)))))))
   \<and> (writeSentinel File_Write f0 snt = (None, f1) \<longrightarrow>
        (\<exists>rec. contents f1 = contents f0 @ rec
           \<and> (\<forall>w. writeSentinel NopWriter_Write w snt = (None, w + of_nat (length rec)))))"
proof -
  have part1: "\<exists>recs. length recs = length snts
        \<and> length (contents f) = 4 + 2 + 8 * length snts + 2 + length (concat recs)
        \<and> drop (4 + 2 + 8 * length snts + 2) (contents f) = concat recs
        \<and> (\<forall>i < length snts.
              take 8 (drop (6 + 8 * i) (contents f)) = LittleEndian 8 (record_start recs i)
            \<and> (record_start recs i < 2 ^ 64 \<longrightarrow>
                  le_value (take 8 (drop (6 + 8 * i) (contents f))) = record_start recs i)
            \<and> take (length (recs ! i)) (drop (record_start recs i) (contents f)) = recs ! i
            \<and> writeSentinel File_Write
                  \<lparr>contents = take (record_start recs i) (contents f),
                   room = space - record_start recs i\<rparr> (snts ! i)
                = (None, \<lparr>contents = take (record_start recs (Suc i)) (contents f),
                          room = space - record_start recs (Suc i)\<rparr>)
            \<and> (\<forall>w. writeSentinel NopWriter_Write w (snts ! i)
                     = (None, w + of_nat (length (recs ! i)))))"
    if run: "writeSentinels (Inr space) snts = (None, Some f)"
  proof -
    define recs where "recs = map (\<lambda>snt. fst (spec_sentinel snt)) snts"
    define out where "out = contents f"
    from writeSentinels_success [OF run]
    have ok: "\<forall>snt \<in> set snts. snd (spec_sentinel snt) = None"
      and out: "out = spec_stream recs" and fits: "length out \<le> space"
      unfolding recs_def out_def by blast+
    have len: "length recs = length snts" by (simp add: recs_def)
    from spec_stream_layout [of recs] obtain header where
      hlen: "length header = 4 + 2 + 8 * length recs + 2"
      and layout: "out = header @ concat recs"
      and entry: "\<And>i. i < length recs \<Longrightarrow>
                    take 8 (drop (6 + 8 * i) header) = LittleEndian 8 (record_start recs i)"
      unfolding out by blast
    have total: "length out = 4 + 2 + 8 * length snts + 2 + length (concat recs)"
      by (simp add: layout hlen len)
    have body: "drop (4 + 2 + 8 * length snts + 2) out = concat recs"
      by (simp add: layout hlen len)
    {
      fix i assume i: "i < length snts"
      then have i': "i < length recs" by (simp add: len)
      let ?p = "record_start recs i"
      have p: "?p = length header + length (concat (take i recs))"
        by (simp add: record_start_def hlen)
      have next_p: "record_start recs (Suc i) = ?p + length (recs ! i)"
        by (simp add: record_start_def concat_take_Suc [OF i'])
      have e1: "take 8 (drop (6 + 8 * i) out) = LittleEndian 8 ?p"
      proof -
        have "6 + 8 * i + 8 \<le> length header" using i by (simp add: hlen len)
        then have "take 8 (drop (6 + 8 * i) out) = take 8 (drop (6 + 8 * i) header)"
          by (simp add: layout)
        with entry [OF i'] show ?thesis by simp
      qed
      have e2: "?p < 2 ^ 64 \<longrightarrow> le_value (take 8 (drop (6 + 8 * i) out)) = ?p"
        by (simp add: e1 le_value_LittleEndian)
      have dr: "drop ?p out = recs ! i @ concat (drop (Suc i) recs)"
        by (simp add: layout p concat_drop_nth [OF i'])
      then have e3: "take (length (recs ! i)) (drop ?p out) = recs ! i" by simp
      have tk: "take (?p + length (recs ! i)) out = take ?p out @ recs ! i"
        by (simp add: take_add e3)
      have "record_start recs (Suc i) \<le> length out"
        using length_concat_take_le [of "Suc i" recs] by (simp add: record_start_def total len)
      with fits have room: "length (recs ! i) \<le> space - ?p" by (simp add: next_p)
      have enc: "spec_sentinel (snts ! i) = (recs ! i, None)"
        using ok i by (simp add: recs_def prod_eq_iff)
      have e4: "writeSentinel File_Write \<lparr>contents = take ?p out, room = space - ?p\<rparr> (snts ! i)
              = (None, \<lparr>contents = take (record_start recs (Suc i)) out,
                        room = space - record_start recs (Suc i)\<rparr>)"
        using room
        by (simp add: writeSentinel_emit [OF sink_File] enc emit_bytes File_Write_def tk next_p)
      have e5: "\<forall>w. writeSentinel NopWriter_Write w (snts ! i)
                   = (None, w + of_nat (length (recs ! i)))"
        by (simp add: writeSentinel_emit [OF sink_NopWriter] enc NopWriter_emit)
      note e1 e2 e3 e4 e5
    }
    with len total body show ?thesis unfolding out_def by blast
  qed
  have part2: "\<exists>rec. contents f1 = contents f0 @ rec
           \<and> (\<forall>w. writeSentinel NopWriter_Write w snt = (None, w + of_nat (length rec)))"
    if one: "writeSentinel File_Write f0 snt = (None, f1)"
  proof -
    obtain rec err where enc: "spec_sentinel snt = (rec, err)" by (cases "spec_sentinel snt")
    from one have e: "emit File_Write f0 (rec, err) = (None, f1)"
      by (simp add: writeSentinel_emit [OF sink_File] enc)
    then have "err = None"
      by (cases err) (simp_all add: emit_error_fst [of File_Write f0 rec, simplified] prod_eq_iff emit_error_fst)
    with e have "contents f1 = contents f0 @ rec"
      by (auto simp: emit_bytes File_Write_def split: if_splits)
    moreover have "\<forall>w. writeSentinel NopWriter_Write w snt = (None, w + of_nat (length rec))"
      using \<open>err = None\<close> by (simp add: writeSentinel_emit [OF sink_NopWriter] enc NopWriter_emit)
    ultimately show ?thesis by blast
  qed
  from part1 part2 show ?thesis by blast
qed

theorem offset_table_positions_witness:
  "writeSentinels (Inr 100) ex_sentinels = (None, Some ex_output)
   \<and> le_value (take 8 (drop 6 (contents ex_output))) = 24
   \<and> le_value (take 8 (drop 14 (contents ex_output))) = 66
   \<and> (\<exists>recs. length recs = length ex_sentinels
    \<and> length (contents ex_output) = 4 + 2 + 8 * length ex_sentinels + 2 + length (concat recs)
    \<and> drop (4 + 2 + 8 * length ex_sentinels + 2) (contents ex_output) = concat recs
    \<and> (\<forall>i < length ex_sentinels.
          take 8 (drop (6 + 8 * i) (contents ex_output)) = LittleEndian 8 (record_start recs i)
        \<and> (record_start recs i < 2 ^ 64 \<longrightarrow>
              le_value (take 8 (drop (6 + 8 * i) (contents ex_output))) = record_start recs i)
        \<and> take (length (recs ! i)) (drop (record_start recs i) (contents ex_output)) = recs ! i
        \<and> writeSentinel File_Write
              \<lparr>contents = take (record_start recs i) (contents ex_output),
               room = 100 - record_start recs i\<rparr> (ex_sentinels ! i)
            = (None, \<lparr>contents = take (record_start recs (Suc i)) (contents ex_output),
                      room = 100 - record_start recs (Suc i)\<rparr>)
        \<and> (\<forall>w. writeSentinel NopWriter_Write w (ex_sentinels ! i)
                 = (None, w + of_nat (length (recs ! i))))))
   \<and> writeSentinel File_Write fresh_file (ex_sentinels ! 1) = (None, ex_record_file)
   \<and> (\<exists>rec. contents ex_record_file = contents fresh_file @ rec
          \<and> (\<forall>w. writeSentinel NopWriter_Write w (ex_sentinels ! 1)
                   = (None, w + of_nat (length rec))))"
proof -
  note t = offset_table_positions
    [where space = 100 and snts = ex_sentinels and f = ex_output
       and ?f0.0 = fresh_file and snt = "ex_sentinels ! 1" and ?f1.0 = ex_record_file]
  have one: "writeSentinel File_Write fresh_file (ex_sentinels ! 1) = (None, ex_record_file)"
    by code_simp
  have a: "le_value (take 8 (drop 6 (contents ex_output))) = 24"
    by (simp add: ex_output_def)
  have b: "le_value (take 8 (drop 14 (contents ex_output))) = 66"
    by (simp add: ex_output_def)
  from t ex_output_run one a b show ?thesis by blast
qed

subsection \<open>C2: an unknown context\<close>

text \<open>
  C2 (amended). When the rules parse and some \<open>$ctx\<close> statement names a context that
  \<open>getCtxCode\<close> does not know, the run ends with the error \<open>UnknownContext\<close> of the
  first such name; the output file has been created or truncated and holds the four
  bytes of the version and nothing else.
\<close>

theorem unknown_context_aborts:
  assumes parsed: "makeSentinels epts = Inr snts"
    and name: "name \<in> set (ctx_names snts)" and unknown: "unknown_ctx name"
    and space: "4 \<le> space"
  shows "\<exists>bad. find unknown_ctx (ctx_names snts) = Some bad
           \<and> getCtxCode bad = Inl (UnknownContext bad)
           \<and> main (Inr (Document epts)) (Inr space)
               = (Some (UnknownContext bad),
                  Some \<lparr>contents = LittleEndian 4 (unat VERSION), room = space - 4\<rparr>)"
proof -
  from find_Some_ex [of name "ctx_names snts" unknown_ctx, OF name unknown] obtain bad where
    bad: "find unknown_ctx (ctx_names snts) = Some bad" by blast
  then have "unknown_ctx bad" by (auto simp: find_Some_iff)
  then have code: "getCtxCode bad = Inl (UnknownContext bad)"
    by (simp add: unknown_ctx_spec getCtxCode_spec)
  have "snd (all_enc (map spec_sentinel snts)) = Some (UnknownContext bad)"
    by (simp add: snd_spec_sentinels ctx_error_def bad)
  from writeSentinels_error [OF this, of space] space
  have "writeSentinels (Inr space) snts
        = (Some (UnknownContext bad),
           Some \<lparr>contents = LittleEndian 4 (unat VERSION), room = space - 4\<rparr>)"
    by (simp add: emit_def File_Write_def VERSION_def)
  with parsed bad code show ?thesis
    by (simp add: main_def readEndpoints_def)
qed

theorem unknown_context_aborts_witness:
  "makeSentinels jsonx_endpoints = Inr jsonx_sentinels
   \<and> ''jsonx'' \<in> set (ctx_names jsonx_sentinels)
   \<and> unknown_ctx ''jsonx''
   \<and> (4 :: nat) \<le> 100
   \<and> (\<exists>bad. find unknown_ctx (ctx_names jsonx_sentinels) = Some bad
           \<and> getCtxCode bad = Inl (UnknownContext bad)
           \<and> main (Inr (Document jsonx_endpoints)) (Inr 100)
               = (Some (UnknownContext bad),
                  Some \<lparr>contents = LittleEndian 4 (unat VERSION), room = 100 - 4\<rparr>))"
proof -
  have n: "''jsonx'' \<in> set (ctx_names jsonx_sentinels)" by (simp add: jsonx_names)
  have s: "(4 :: nat) \<le> 100" by simp
  from unknown_context_aborts [OF jsonx_parsed n jsonx_unknown s] jsonx_parsed n jsonx_unknown s
  show ?thesis by blast
qed

text \<open>The claim as the specification states it fails: the run on the rule
  \<open>$ctx == 'jsonx'\<close> leaves a file of four bytes at the output path.\<close>

theorem unknown_context_leaves_version_bytes:
  "main (Inr (Document jsonx_endpoints)) (Inr 100)
   = (Some (UnknownContext ''jsonx''),
      Some \<lparr>contents = [CHR 0x04, CHR 0x00, CHR 0x00, CHR 0x00], room = 96\<rparr>)"
  by code_simp

subsection \<open>C3: escapes in literals\<close>

text \<open>
  C3 (amended). Inside a string or regex literal a backslash makes the scanner copy
  the next rune to the token whatever it is (the delimiter and the backslash
  included), and the backslash itself is not copied: the raw token holds the literal
  with its escapes already removed. Any other rune is copied, and the delimiter closes
  the token. The end of the input inside a literal, also right after a backslash, is
  fatal. So the token is the builder followed by \<open>literal_body\<close> of the runes read.
  The scanning loop starts such a token at a quote or at a slash. What \<open>parseGroup\<close>
  then does with the token is to store it: a token that starts with a slash unchanged
  in \<open>Regexp\<close>, a token that starts with a quote in \<open>Val\<close> after
  \<open>strings.Trim\<close> has taken quote bytes, and nothing else, off its two ends (also
  a quote that an escape put there: the value of \<open>'\'a\''\<close> is \<open>a\<close>).
\<close>

theorem literal_escape_dropped:
  "(ReadRune src = Some (0x5C, src') \<and> ReadRune src' = Some (r, src'') \<longrightarrow>
      scanDelim dst src delim = scanDelim (dst @ WriteRune r) src'' delim)
   \<and> (ReadRune src = Some (r, src') \<and> r \<noteq> 0x5C \<and> r \<noteq> delim \<longrightarrow>
      scanDelim dst src delim = scanDelim (dst @ WriteRune r) src' delim)
   \<and> (ReadRune src = Some (delim, src') \<and> delim \<noteq> 0x5C \<longrightarrow>
      scanDelim dst src delim = Inr (dst @ WriteRune delim, src'))
   \<and> (ReadRune src = None \<longrightarrow> scanDelim dst src delim = Inl (Fatal ''invalid string''))
   \<and> (ReadRune src = Some (0x5C, src') \<and> ReadRune src' = None \<longrightarrow>
      scanDelim dst src delim = Inl (Fatal ''invalid string''))
   \<and> map_sum id fst (scanDelim dst src delim)
       = (case literal_body delim (runes_of src) of
            None \<Rightarrow> Inl (Fatal ''invalid string'')
          | Some body \<Rightarrow> Inr (dst @ concat (map WriteRune body)))
   \<and> ((of_char c :: nat) < 0x80 \<longrightarrow>
      scanDelim dst (CHR 0x5C # c # rest) delim = scanDelim (dst @ [c]) rest delim)
   \<and> scanGroups_loop result grp (CHR 0x27 # rest)
       = (case scanDelim [CHR 0x27] rest 0x27 of
            Inl e \<Rightarrow> Inl e
          | Inr (sb, rest') \<Rightarrow> scanGroups_loop result (grp @ [sb]) rest')
   \<and> scanGroups_loop result grp (CHR ''/'' # rest)
       = (case scanDelim ''/'' rest 0x2F of
            Inl e \<Rightarrow> Inl e
          | Inr (sb, rest') \<Rightarrow> scanGroups_loop result (grp @ [sb]) rest')
   \<and> (HasPrefix token [CHR 0x27] \<longrightarrow>
      assignToken cur token = Inr (cur\<lparr>Val := Trim token (CHR 0x27)\<rparr>))
   \<and> (\<not> HasPrefix token [CHR 0x27] \<and> HasPrefix token ''/'' \<longrightarrow>
      assignToken cur token = Inr (cur\<lparr>Regexp := token\<rparr>))
   \<and> (\<exists>p q. token = p @ Trim token (CHR 0x27) @ q
          \<and> set p \<subseteq> {CHR 0x27} \<and> set q \<subseteq> {CHR 0x27})"
proof -
  have d: "scanDelim dst (CHR 0x5C # c # rest) delim = scanDelim (dst @ [c]) rest delim"
    if "(of_char c :: nat) < 0x80"
    using scanDelim_escape [OF ReadRune_backslash ReadRune_ascii [OF that], of dst rest delim]
    by (simp add: WriteRune_ascii [OF that])
  have e: "scanGroups_loop result grp (CHR 0x27 # rest)
       = (case scanDelim [CHR 0x27] rest 0x27 of
            Inl e \<Rightarrow> Inl e
          | Inr (sb, rest') \<Rightarrow> scanGroups_loop result (grp @ [sb]) rest')"
    by (simp add: scanGroups_loop.simps [of result grp "CHR 0x27 # rest"] ReadRune_quote
          WriteRune_quote)
  have f: "scanGroups_loop result grp (CHR ''/'' # rest)
       = (case scanDelim ''/'' rest 0x2F of
            Inl e \<Rightarrow> Inl e
          | Inr (sb, rest') \<Rightarrow> scanGroups_loop result (grp @ [sb]) rest')"
    by (simp add: scanGroups_loop.simps [of result grp "CHR ''/'' # rest"] ReadRune_slash
          WriteRune_slash)
  have a: "scanDelim dst src delim = scanDelim (dst @ WriteRune r) src'' delim"
    if "ReadRune src = Some (0x5C, src') \<and> ReadRune src' = Some (r, src'')"
    using that by (simp add: scanDelim_escape)
  have b: "scanDelim dst src delim = scanDelim (dst @ WriteRune r) src' delim"
    if "ReadRune src = Some (r, src') \<and> r \<noteq> 0x5C \<and> r \<noteq> delim"
    using that by (simp add: scanDelim_plain)
  have c: "scanDelim dst src delim = Inr (dst @ WriteRune delim, src')"
    if "ReadRune src = Some (delim, src') \<and> delim \<noteq> 0x5C"
    using that by (simp add: scanDelim_close)
  have x: "scanDelim dst src delim = Inl (Fatal ''invalid string'')" if "ReadRune src = None"
    using that by (rule scanDelim_eof)
  have y: "scanDelim dst src delim = Inl (Fatal ''invalid string'')"
    if "ReadRune src = Some (0x5C, src') \<and> ReadRune src' = None"
    using that by (simp add: scanDelim_escape_eof)
  have g: "map_sum id fst (scanDelim dst src delim)
       = (case literal_body delim (runes_of src) of
            None \<Rightarrow> Inl (Fatal ''invalid string'')
          | Some body \<Rightarrow> Inr (dst @ concat (map WriteRune body)))"
    by (rule scanDelim_literal_body)
  have h: "assignToken cur token = Inr (cur\<lparr>Val := Trim token (CHR 0x27)\<rparr>)"
    if "HasPrefix token [CHR 0x27]"
    using that by (rule assignToken_quote)
  have i: "assignToken cur token = Inr (cur\<lparr>Regexp := token\<rparr>)"
    if "\<not> HasPrefix token [CHR 0x27] \<and> HasPrefix token ''/''"
    using that by (simp add: assignToken_slash)
  have j: "\<exists>p q. token = p @ Trim token (CHR 0x27) @ q
          \<and> set p \<subseteq> {CHR 0x27} \<and> set q \<subseteq> {CHR 0x27}"
    by (rule Trim_ends)
  from a b c x y g d e f h i j show ?thesis by blast
qed

theorem literal_escape_dropped_witness:
  "ReadRune [CHR 0x5C, CHR 0x27, CHR ''b'', CHR 0x27] = Some (0x5C, [CHR 0x27, CHR ''b'', CHR 0x27])
   \<and> ReadRune [CHR 0x27, CHR ''b'', CHR 0x27] = Some (0x27, [CHR ''b'', CHR 0x27])
   \<and> scanDelim [CHR 0x27, CHR ''a''] [CHR 0x5C, CHR 0x27, CHR ''b'', CHR 0x27] 0x27
       = scanDelim ([CHR 0x27, CHR ''a''] @ WriteRune 0x27) [CHR ''b'', CHR 0x27] 0x27
   \<and> ReadRune [CHR ''b'', CHR 0x27] = Some (0x62, [CHR 0x27])
   \<and> (0x62 :: nat) \<noteq> 0x5C \<and> (0x62 :: nat) \<noteq> 0x27
   \<and> scanDelim [CHR 0x27, CHR ''a'', CHR 0x27] [CHR ''b'', CHR 0x27] 0x27
       = scanDelim ([CHR 0x27, CHR ''a'', CHR 0x27] @ WriteRune 0x62) [CHR 0x27] 0x27
   \<and> ReadRune [CHR 0x27] = Some (0x27, [])
   \<and> (0x27 :: nat) \<noteq> 0x5C
   \<and> scanDelim [CHR 0x27, CHR ''a'', CHR 0x27, CHR ''b''] [CHR 0x27] 0x27
       = Inr ([CHR 0x27, CHR ''a'', CHR 0x27, CHR ''b''] @ WriteRune 0x27, [])
   \<and> ReadRune [] = None
   \<and> scanDelim [CHR 0x27, CHR ''a''] [] 0x27 = Inl (Fatal ''invalid string'')
   \<and> ReadRune [CHR 0x5C] = Some (0x5C, [])
   \<and> scanDelim [CHR 0x27, CHR ''a''] [CHR 0x5C] 0x27 = Inl (Fatal ''invalid string'')
   \<and> (of_char (CHR 0x27) :: nat) < 0x80
   \<and> scanDelim [CHR 0x27, CHR ''a''] (CHR 0x5C # CHR 0x27 # [CHR ''b'', CHR 0x27]) 0x27
       = scanDelim ([CHR 0x27, CHR ''a''] @ [CHR 0x27]) [CHR ''b'', CHR 0x27] 0x27
   \<and> scanDelim [CHR 0x27] [CHR ''a'', CHR 0x5C, CHR 0x27, CHR ''b'', CHR 0x27] 0x27
       = Inr ([CHR 0x27, CHR ''a'', CHR 0x27, CHR ''b'', CHR 0x27], [])
   \<and> runes_of [CHR ''a'', CHR 0x5C, CHR 0x27, CHR ''b'', CHR 0x27] = [0x61, 0x5C, 0x27, 0x62, 0x27]
   \<and> literal_body 0x27 [0x61, 0x5C, 0x27, 0x62, 0x27] = Some [0x61, 0x27, 0x62, 0x27]
   \<and> map_sum id fst (scanDelim [CHR 0x27] [CHR ''a'', CHR 0x5C, CHR 0x27, CHR ''b'', CHR 0x27] 0x27)
       = Inr ([CHR 0x27] @ concat (map WriteRune [0x61, 0x27, 0x62, 0x27]))
   \<and> HasPrefix [CHR 0x27, CHR ''a'', CHR 0x27, CHR ''b'', CHR 0x27] [CHR 0x27]
   \<and> Trim [CHR 0x27, CHR ''a'', CHR 0x27, CHR ''b'', CHR 0x27] (CHR 0x27)
       = [CHR ''a'', CHR 0x27, CHR ''b'']
   \<and> assignToken Stmt0 [CHR 0x27, CHR ''a'', CHR 0x27, CHR ''b'', CHR 0x27]
       = Inr (Stmt0\<lparr>Val := [CHR ''a'', CHR 0x27, CHR ''b'']\<rparr>)
   \<and> \<not> HasPrefix ''/a/b/'' [CHR 0x27] \<and> HasPrefix ''/a/b/'' ''/''
   \<and> assignToken Stmt0 ''/a/b/'' = Inr (Stmt0\<lparr>Regexp := ''/a/b/''\<rparr>)
   \<and> parseRule [CHR ''$'', CHR ''v'', CHR ''a'', CHR ''l'', CHR '' '', CHR ''='', CHR ''='', CHR '' '',
         CHR 0x27, CHR ''a'', CHR 0x5C, CHR 0x27, CHR ''b'', CHR 0x27]
       = Inr [[\<lparr>Var = VAL, Op = EQ, Val = [CHR ''a'', CHR 0x27, CHR ''b''], Regexp = []\<rparr>]]
   \<and> parseRule [CHR ''$'', CHR ''v'', CHR ''a'', CHR ''l'', CHR '' '', CHR ''='', CHR ''='', CHR '' '',
         CHR 0x27, CHR 0x5C, CHR 0x27, CHR ''a'', CHR 0x5C, CHR 0x27, CHR 0x27]
       = Inr [[\<lparr>Var = VAL, Op = EQ, Val = ''a'', Regexp = []\<rparr>]]"
proof -
  have r1: "ReadRune [CHR 0x5C, CHR 0x27, CHR ''b'', CHR 0x27]
            = Some (0x5C, [CHR 0x27, CHR ''b'', CHR 0x27])"
    by (rule ReadRune_backslash)
  have r2: "ReadRune [CHR 0x27, CHR ''b'', CHR 0x27] = Some (0x27, [CHR ''b'', CHR 0x27])"
    by (rule ReadRune_quote)
  have r3: "ReadRune [CHR ''b'', CHR 0x27] = Some (0x62, [CHR 0x27])"
    using ReadRune_ascii [of "CHR ''b''" "[CHR 0x27]"] by simp
  have r4: "ReadRune [CHR 0x27] = Some (0x27, [])"
    by (rule ReadRune_quote)
  have n: "(0x62 :: nat) \<noteq> 0x5C" "(0x62 :: nat) \<noteq> 0x27" "(0x27 :: nat) \<noteq> 0x5C"
    "(of_char (CHR 0x27) :: nat) < 0x80"
    by simp_all
  note t1 = literal_escape_dropped
    [where src = "[CHR 0x5C, CHR 0x27, CHR ''b'', CHR 0x27]" and src' = "[CHR 0x27, CHR ''b'', CHR 0x27]"
       and r = "0x27" and src'' = "[CHR ''b'', CHR 0x27]" and dst = "[CHR 0x27, CHR ''a'']"
       and delim = "0x27" and c = "CHR 0x27" and rest = "[CHR ''b'', CHR 0x27]"]
  note t2 = literal_escape_dropped
    [where src = "[CHR ''b'', CHR 0x27]" and src' = "[CHR 0x27]" and r = "0x62"
       and dst = "[CHR 0x27, CHR ''a'', CHR 0x27]" and delim = "0x27"]
  note t3 = literal_escape_dropped
    [where src = "[CHR 0x27]" and src' = "[]"
       and dst = "[CHR 0x27, CHR ''a'', CHR 0x27, CHR ''b'']" and delim = "0x27"]
  from t1 r1 r2 have e1: "scanDelim [CHR 0x27, CHR ''a''] [CHR 0x5C, CHR 0x27, CHR ''b'', CHR 0x27] 0x27
       = scanDelim ([CHR 0x27, CHR ''a''] @ WriteRune 0x27) [CHR ''b'', CHR 0x27] 0x27"
    by blast
  from t2 r3 n have e2: "scanDelim [CHR 0x27, CHR ''a'', CHR 0x27] [CHR ''b'', CHR 0x27] 0x27
       = scanDelim ([CHR 0x27, CHR ''a'', CHR 0x27] @ WriteRune 0x62) [CHR 0x27] 0x27"
    by blast
  from t3 r4 n have e3: "scanDelim [CHR 0x27, CHR ''a'', CHR 0x27, CHR ''b''] [CHR 0x27] 0x27
       = Inr ([CHR 0x27, CHR ''a'', CHR 0x27, CHR ''b''] @ WriteRune 0x27, [])"
    by blast
  from t1 n have e4: "scanDelim [CHR 0x27, CHR ''a''] (CHR 0x5C # CHR 0x27 # [CHR ''b'', CHR 0x27]) 0x27
       = scanDelim ([CHR 0x27, CHR ''a''] @ [CHR 0x27]) [CHR ''b'', CHR 0x27] 0x27"
    by blast
  have r5: "ReadRune [] = None" by simp
  have r6: "ReadRune [CHR 0x5C] = Some (0x5C, [])" by (rule ReadRune_backslash)
  from literal_escape_dropped [where src = "[]" and dst = "[CHR 0x27, CHR ''a'']" and delim = "0x27"] r5
  have e6: "scanDelim [CHR 0x27, CHR ''a''] [] 0x27 = Inl (Fatal ''invalid string'')"
    by blast
  from literal_escape_dropped
    [where src = "[CHR 0x5C]" and src' = "[]" and dst = "[CHR 0x27, CHR ''a'']" and delim = "0x27"] r5 r6
  have e7: "scanDelim [CHR 0x27, CHR ''a''] [CHR 0x5C] 0x27 = Inl (Fatal ''invalid string'')"
    by blast
  have e5: "scanDelim [CHR 0x27] [CHR ''a'', CHR 0x5C, CHR 0x27, CHR ''b'', CHR 0x27] 0x27
       = Inr ([CHR 0x27, CHR ''a'', CHR 0x27, CHR ''b'', CHR 0x27], [])"
    by code_simp
  have ru: "runes_of [CHR ''a'', CHR 0x5C, CHR 0x27, CHR ''b'', CHR 0x27]
            = [0x61, 0x5C, 0x27, 0x62, 0x27]" by code_simp
  have lb: "literal_body 0x27 [0x61, 0x5C, 0x27, 0x62, 0x27] = Some [0x61, 0x27, 0x62, 0x27]"
    by simp
  from literal_escape_dropped
    [where dst = "[CHR 0x27]" and src = "[CHR ''a'', CHR 0x5C, CHR 0x27, CHR ''b'', CHR 0x27]"
       and delim = "0x27"]
  have "map_sum id fst (scanDelim [CHR 0x27] [CHR ''a'', CHR 0x5C, CHR 0x27, CHR ''b'', CHR 0x27] 0x27)
       = (case literal_body 0x27 (runes_of [CHR ''a'', CHR 0x5C, CHR 0x27, CHR ''b'', CHR 0x27]) of
            None \<Rightarrow> Inl (Fatal ''invalid string'')
          | Some body \<Rightarrow> Inr ([CHR 0x27] @ concat (map WriteRune body)))"
    by blast
  then have gl: "map_sum id fst (scanDelim [CHR 0x27] [CHR ''a'', CHR 0x5C, CHR 0x27, CHR ''b'', CHR 0x27] 0x27)
       = Inr ([CHR 0x27] @ concat (map WriteRune [0x61, 0x27, 0x62, 0x27]))"
    by (simp only: ru lb option.case)
  have hp: "HasPrefix [CHR 0x27, CHR ''a'', CHR 0x27, CHR ''b'', CHR 0x27] [CHR 0x27]"
    "\<not> HasPrefix ''/a/b/'' [CHR 0x27]" "HasPrefix ''/a/b/'' ''/''"
    by (simp_all add: HasPrefix_def)
  have tr: "Trim [CHR 0x27, CHR ''a'', CHR 0x27, CHR ''b'', CHR 0x27] (CHR 0x27)
            = [CHR ''a'', CHR 0x27, CHR ''b'']"
    by (simp add: Trim_def)
  from literal_escape_dropped
    [where token = "[CHR 0x27, CHR ''a'', CHR 0x27, CHR ''b'', CHR 0x27]" and cur = Stmt0] hp
  have "assignToken Stmt0 [CHR 0x27, CHR ''a'', CHR 0x27, CHR ''b'', CHR 0x27]
       = Inr (Stmt0\<lparr>Val := Trim [CHR 0x27, CHR ''a'', CHR 0x27, CHR ''b'', CHR 0x27] (CHR 0x27)\<rparr>)"
    by blast
  then have a1: "assignToken Stmt0 [CHR 0x27, CHR ''a'', CHR 0x27, CHR ''b'', CHR 0x27]
       = Inr (Stmt0\<lparr>Val := [CHR ''a'', CHR 0x27, CHR ''b'']\<rparr>)"
    by (simp only: tr)
  from literal_escape_dropped [where token = "''/a/b/''" and cur = Stmt0] hp
  have a2: "assignToken Stmt0 ''/a/b/'' = Inr (Stmt0\<lparr>Regexp := ''/a/b/''\<rparr>)"
    by blast
  have pr: "parseRule [CHR ''$'', CHR ''v'', CHR ''a'', CHR ''l'', CHR '' '', CHR ''='', CHR ''='', CHR '' '',
         CHR 0x27, CHR ''a'', CHR 0x5C, CHR 0x27, CHR ''b'', CHR 0x27]
       = Inr [[\<lparr>Var = VAL, Op = EQ, Val = [CHR ''a'', CHR 0x27, CHR ''b''], Regexp = []\<rparr>]]"
    by code_simp
  have pq: "parseRule [CHR ''$'', CHR ''v'', CHR ''a'', CHR ''l'', CHR '' '', CHR ''='', CHR ''='', CHR '' '',
         CHR 0x27, CHR 0x5C, CHR 0x27, CHR ''a'', CHR 0x5C, CHR 0x27, CHR 0x27]
       = Inr [[\<lparr>Var = VAL, Op = EQ, Val = ''a'', Regexp = []\<rparr>]]"
    by code_simp
  from r1 r2 e1 r3 n e2 r4 e3 r5 e6 r6 e7 e4 e5 ru lb gl hp tr a1 a2 pr pq show ?thesis by blast
qed

text \<open>The claim as the specification states it fails: the token of the literal
  \<open>'a\'b'\<close> has no backslash.\<close>

theorem escape_backslash_not_in_token:
  "scanGroups [CHR 0x27, CHR ''a'', CHR 0x5C, CHR 0x27, CHR ''b'', CHR 0x27]
     = Inr [[[CHR 0x27, CHR ''a'', CHR 0x27, CHR ''b'', CHR 0x27]]]
   \<and> CHR 0x5C \<notin> set [CHR 0x27, CHR ''a'', CHR 0x27, CHR ''b'', CHR 0x27]
   \<and> scanGroups [CHR ''/'', CHR ''a'', CHR 0x5C, CHR ''/'', CHR ''b'', CHR ''/'']
     = Inr [[''/a/b/'']]"
  by code_simp

subsection \<open>C4: when a statement is complete\<close>

text \<open>
  C4. The parser takes the tokens from left to right. After each token it appends the
  accumulator to the result and resets it exactly when the accumulator is complete (a
  field, an operator and a non-empty value, or the operator \<open>block\<close> or \<open>pass\<close>
  whatever the other fields hold); otherwise it goes on with the accumulator. So every
  statement returned is complete, a bare \<open>block\<close> or \<open>pass\<close> completes at once, and
  complete statements may follow one another in one group.
\<close>

theorem parseGroup_completion:
  "(assignToken cur token = Inr cur' \<longrightarrow>
      parseGroup_loop result cur (token # tokens)
        = (if complete cur' then parseGroup_loop (result @ [cur']) Stmt0 tokens
           else parseGroup_loop result cur' tokens))
   \<and> (assignToken cur token = Inl err \<longrightarrow>
        parseGroup_loop result cur (token # tokens) = Inl err)
   \<and> (parseGroup tokens = Inr stmts \<longrightarrow> (\<forall>stmt \<in> set stmts. complete stmt))
   \<and> parseGroup_loop result cur (''block'' # tokens)
        = parseGroup_loop (result @ [cur\<lparr>Op := BLOCK\<rparr>]) Stmt0 tokens
   \<and> parseGroup_loop result cur (''pass'' # tokens)
        = parseGroup_loop (result @ [cur\<lparr>Op := PASS\<rparr>]) Stmt0 tokens
   \<and> (parseGroup_loop [] Stmt0 ts = Inr (stmts1, Stmt0) \<and> parseGroup us = Inr stmts2 \<longrightarrow>
        parseGroup (ts @ us) = Inr (stmts1 @ stmts2))"
proof -
  have c: "\<forall>stmt \<in> set stmts. complete stmt" if "parseGroup tokens = Inr stmts"
  proof -
    from that obtain cur' where "parseGroup_loop [] Stmt0 tokens = Inr (stmts, cur')"
      by (auto simp: parseGroup_def split: sum.splits)
    from parseGroup_loop_complete [OF this] show ?thesis by simp
  qed
  have d: "parseGroup_loop result cur (''block'' # tokens)
        = parseGroup_loop (result @ [cur\<lparr>Op := BLOCK\<rparr>]) Stmt0 tokens"
    by (simp add: parseGroup_loop_step [OF assignToken_block] complete_def)
  have e: "parseGroup_loop result cur (''pass'' # tokens)
        = parseGroup_loop (result @ [cur\<lparr>Op := PASS\<rparr>]) Stmt0 tokens"
    by (simp add: parseGroup_loop_step [OF assignToken_pass] complete_def)
  have f: "parseGroup (ts @ us) = Inr (stmts1 @ stmts2)"
    if "parseGroup_loop [] Stmt0 ts = Inr (stmts1, Stmt0)" "parseGroup us = Inr stmts2"
    using that parseGroup_loop_prefix [of stmts1 "[]" Stmt0 us]
    by (auto simp: parseGroup_def parseGroup_loop_append split: sum.splits)
  from parseGroup_loop_step parseGroup_loop_error c d e f show ?thesis by blast
qed

theorem parseGroup_completion_witness:
  "assignToken \<lparr>Var = 2, Op = 3, Val = [], Regexp = []\<rparr> quoted_a
     = Inr \<lparr>Var = 2, Op = 3, Val = ''a'', Regexp = []\<rparr>
   \<and> complete \<lparr>Var = 2, Op = 3, Val = ''a'', Regexp = []\<rparr>
   \<and> parseGroup_loop [] \<lparr>Var = 2, Op = 3, Val = [], Regexp = []\<rparr> (quoted_a # [''pass''])
       = parseGroup_loop ([] @ [\<lparr>Var = 2, Op = 3, Val = ''a'', Regexp = []\<rparr>]) Stmt0 [''pass'']
   \<and> assignToken Stmt0 ''$key'' = Inr \<lparr>Var = 2, Op = 0, Val = [], Regexp = []\<rparr>
   \<and> \<not> complete \<lparr>Var = 2, Op = 0, Val = [], Regexp = []\<rparr>
   \<and> parseGroup_loop [] Stmt0 (''$key'' # [''==''])
       = parseGroup_loop [] \<lparr>Var = 2, Op = 0, Val = [], Regexp = []\<rparr> [''=='']
   \<and> assignToken Stmt0 ''$foo'' = Inl (UnknownVariable ''$foo'')
   \<and> parseGroup_loop [] Stmt0 (''$foo'' # [''=='']) = Inl (UnknownVariable ''$foo'')
   \<and> parseGroup [''$key'', ''=='', quoted_a, ''$val'', ''!='', ''/x/'', ''pass'']
       = Inr [\<lparr>Var = 2, Op = 3, Val = ''a'', Regexp = []\<rparr>,
              \<lparr>Var = 3, Op = 4, Val = [], Regexp = ''/x/''\<rparr>,
              \<lparr>Var = 0, Op = 2, Val = [], Regexp = []\<rparr>]
   \<and> complete \<lparr>Var = 3, Op = 4, Val = [], Regexp = ''/x/''\<rparr>
   \<and> complete \<lparr>Var = 0, Op = 2, Val = [], Regexp = []\<rparr>
   \<and> parseGroup_loop [] Stmt0 [''$key'', ''=='', quoted_a]
       = Inr ([\<lparr>Var = 2, Op = 3, Val = ''a'', Regexp = []\<rparr>], Stmt0)
   \<and> parseGroup [''block''] = Inr [\<lparr>Var = 0, Op = 1, Val = [], Regexp = []\<rparr>]
   \<and> parseGroup ([''$key'', ''=='', quoted_a] @ [''block''])
       = Inr ([\<lparr>Var = 2, Op = 3, Val = ''a'', Regexp = []\<rparr>]
              @ [\<lparr>Var = 0, Op = 1, Val = [], Regexp = []\<rparr>])"
proof -
  have a1: "assignToken \<lparr>Var = 2, Op = 3, Val = [], Regexp = []\<rparr> quoted_a
     = Inr \<lparr>Var = 2, Op = 3, Val = ''a'', Regexp = []\<rparr>" by code_simp
  have c1: "complete \<lparr>Var = 2, Op = 3, Val = ''a'', Regexp = []\<rparr>" by code_simp
  from parseGroup_completion
    [where cur = "\<lparr>Var = 2, Op = 3, Val = [], Regexp = []\<rparr>" and token = quoted_a
       and cur' = "\<lparr>Var = 2, Op = 3, Val = ''a'', Regexp = []\<rparr>" and result = "[]"
       and tokens = "[''pass'']"] a1 c1
  have s1: "parseGroup_loop [] \<lparr>Var = 2, Op = 3, Val = [], Regexp = []\<rparr> (quoted_a # [''pass''])
       = parseGroup_loop ([] @ [\<lparr>Var = 2, Op = 3, Val = ''a'', Regexp = []\<rparr>]) Stmt0 [''pass'']"
    by simp
  have a2: "assignToken Stmt0 ''$key'' = Inr \<lparr>Var = 2, Op = 0, Val = [], Regexp = []\<rparr>"
    by code_simp
  have c2: "\<not> complete \<lparr>Var = 2, Op = 0, Val = [], Regexp = []\<rparr>" by code_simp
  from parseGroup_completion
    [where cur = Stmt0 and token = "''$key''"
       and cur' = "\<lparr>Var = 2, Op = 0, Val = [], Regexp = []\<rparr>" and result = "[]"
       and tokens = "[''=='']"] a2 c2
  have s2: "parseGroup_loop [] Stmt0 (''$key'' # [''==''])
       = parseGroup_loop [] \<lparr>Var = 2, Op = 0, Val = [], Regexp = []\<rparr> [''=='']"
    by simp
  have a3: "assignToken Stmt0 ''$foo'' = Inl (UnknownVariable ''$foo'')" by code_simp
  from parseGroup_completion
    [where cur = Stmt0 and token = "''$foo''" and err = "UnknownVariable ''$foo''"
       and result = "[]" and tokens = "[''=='']"] a3
  have s3: "parseGroup_loop [] Stmt0 (''$foo'' # [''=='']) = Inl (UnknownVariable ''$foo'')"
    by blast
  have p: "parseGroup [''$key'', ''=='', quoted_a, ''$val'', ''!='', ''/x/'', ''pass'']
       = Inr [\<lparr>Var = 2, Op = 3, Val = ''a'', Regexp = []\<rparr>,
              \<lparr>Var = 3, Op = 4, Val = [], Regexp = ''/x/''\<rparr>,
              \<lparr>Var = 0, Op = 2, Val = [], Regexp = []\<rparr>]" by code_simp
  from parseGroup_completion
    [where tokens = "[''$key'', ''=='', quoted_a, ''$val'', ''!='', ''/x/'', ''pass'']"
       and stmts = "[\<lparr>Var = 2, Op = 3, Val = ''a'', Regexp = []\<rparr>,
              \<lparr>Var = 3, Op = 4, Val = [], Regexp = ''/x/''\<rparr>,
              \<lparr>Var = 0, Op = 2, Val = [], Regexp = []\<rparr>]"] p
  have c3: "complete \<lparr>Var = 3, Op = 4, Val = [], Regexp = ''/x/''\<rparr>"
    and c4: "complete \<lparr>Var = 0, Op = 2, Val = [], Regexp = []\<rparr>"
    by simp_all
  have l: "parseGroup_loop [] Stmt0 [''$key'', ''=='', quoted_a]
       = Inr ([\<lparr>Var = 2, Op = 3, Val = ''a'', Regexp = []\<rparr>], Stmt0)" by code_simp
  have b: "parseGroup [''block''] = Inr [\<lparr>Var = 0, Op = 1, Val = [], Regexp = []\<rparr>]"
    by code_simp
  from parseGroup_completion
    [where ts = "[''$key'', ''=='', quoted_a]"
       and ?stmts1.0 = "[\<lparr>Var = 2, Op = 3, Val = ''a'', Regexp = []\<rparr>]"
       and us = "[''block'']" and ?stmts2.0 = "[\<lparr>Var = 0, Op = 1, Val = [], Regexp = []\<rparr>]"] l b
  have j: "parseGroup ([''$key'', ''=='', quoted_a] @ [''block''])
       = Inr ([\<lparr>Var = 2, Op = 3, Val = ''a'', Regexp = []\<rparr>]
              @ [\<lparr>Var = 0, Op = 1, Val = [], Regexp = []\<rparr>])"
    by blast
  from a1 c1 s1 a2 c2 s2 a3 s3 p c3 c4 l b j show ?thesis by blast
qed

subsection \<open>C5: the context bitmask\<close>

text \<open>
  C5. A statement whose field is \<open>$ctx\<close> is written as the field code, the operator
  code and the tag \<open>NUMERIC\<close>, followed by what \<open>writeCtx\<close> writes: when all the names
  of the value (split at \<open>|\<close>, white space trimmed) are known, the 8 bytes of the
  bitmask with bit \<open>k\<close> set exactly when some name has code \<open>k\<close>, which therefore
  depends on the set of names only; otherwise nothing, and the error names the first
  unknown name.
\<close>

theorem ctx_statement_encoding:
  assumes "sink Write"
  shows "(Var stmt = CTX \<longrightarrow>
            writeStmt Write w stmt
              = ifOk (Write w [byte (unat CTX), byte (unat (Op stmt)), byte (unat NUMERIC)])
                  (\<lambda>w. writeCtx Write w (Val stmt)))
       \<and> ((\<forall>name \<in> set (spec_context_names val). spec_context_code name \<noteq> None) \<longrightarrow>
            writeCtx Write w val
              = Write w (LittleEndian 8 (unat (spec_bitmask (spec_context_names val)))))
       \<and> (find (\<lambda>name. spec_context_code name = None) (spec_context_names val) = Some bad \<longrightarrow>
            writeCtx Write w val = (Some (UnknownContext bad), w))
       \<and> (bit (spec_bitmask names) k \<longleftrightarrow>
            k < 64 \<and> (\<exists>name \<in> set names. getCtxCode name = Inr (of_nat k)))
       \<and> (set names1 = set names2 \<longrightarrow> spec_bitmask names1 = spec_bitmask names2)"
proof -
  have a: "writeStmt Write w stmt
              = ifOk (Write w [byte (unat CTX), byte (unat (Op stmt)), byte (unat NUMERIC)])
                  (\<lambda>w. writeCtx Write w (Val stmt))" if v: "Var stmt = CTX"
  proof -
    have "writeStmt Write w stmt
          = emit Write w (then_enc ([byte (unat CTX), byte (unat (Op stmt))], None)
                (then_enc ([byte (unat NUMERIC)], None) (spec_contexts (Val stmt))))"
      using v by (simp add: writeStmt_emit [OF assms] spec_statement_def code_defs)
    also have "then_enc ([byte (unat CTX), byte (unat (Op stmt))], None)
                (then_enc ([byte (unat NUMERIC)], None) (spec_contexts (Val stmt)))
               = then_enc ([byte (unat CTX), byte (unat (Op stmt)), byte (unat NUMERIC)], None)
                   (spec_contexts (Val stmt))"
      by (simp add: then_enc_def)
    also have "emit Write w \<dots>
               = ifOk (emit Write w ([byte (unat CTX), byte (unat (Op stmt)), byte (unat NUMERIC)], None))
                   (\<lambda>w. emit Write w (spec_contexts (Val stmt)))"
      by (simp add: emit_then [OF assms])
    finally show ?thesis by (simp add: emit_bytes writeCtx_emit [OF assms])
  qed
  have b: "writeCtx Write w val
              = Write w (LittleEndian 8 (unat (spec_bitmask (spec_context_names val))))"
    if known: "\<forall>name \<in> set (spec_context_names val). spec_context_code name \<noteq> None"
  proof -
    from known have "find (\<lambda>name. spec_context_code name = None) (spec_context_names val) = None"
      by (simp only: find_None_known)
    then show ?thesis
      by (simp add: writeCtx_emit [OF assms] spec_contexts_def emit_bytes)
  qed
  have c: "writeCtx Write w val = (Some (UnknownContext bad), w)"
    if "find (\<lambda>name. spec_context_code name = None) (spec_context_names val) = Some bad"
    using that by (simp add: writeCtx_emit [OF assms] spec_contexts_def emit_error [OF assms])
  have code: "getCtxCode name = Inr (of_nat k) \<longleftrightarrow> spec_context_code name = Some k"
    if "k < 64" for name
  proof (cases "spec_context_code name")
    case None
    then show ?thesis by (simp add: getCtxCode_spec)
  next
    case (Some code)
    from spec_context_code_bound [OF Some] that
    have "(of_nat code :: 8 word) = of_nat k \<longleftrightarrow> code = k"
      by (simp add: word_of_nat_eq_iff take_bit_nat_eq_self)
    with Some show ?thesis by (simp add: getCtxCode_spec)
  qed
  have d: "bit (spec_bitmask names) k \<longleftrightarrow>
            k < 64 \<and> (\<exists>name \<in> set names. getCtxCode name = Inr (of_nat k))"
    using code by (auto simp: bit_spec_bitmask)
  from a b c d spec_bitmask_set show ?thesis by blast
qed

theorem ctx_statement_encoding_witness:
  "sink File_Write
   \<and> Var ctx_stmt = CTX
   \<and> writeStmt File_Write fresh_file ctx_stmt
       = ifOk (File_Write fresh_file [byte (unat CTX), byte (unat (Op ctx_stmt)), byte (unat NUMERIC)])
           (\<lambda>w. writeCtx File_Write w (Val ctx_stmt))
   \<and> writeStmt File_Write fresh_file ctx_stmt
       = (None, \<lparr>contents = [CHR 0x01, CHR 0x03, CHR 0x01, CHR 0xC0, CHR 0x00, CHR 0x00, CHR 0x00,
                               CHR 0x00, CHR 0x00, CHR 0x00, CHR 0x00], room = 89\<rparr>)
   \<and> spec_context_names ''json_obj|json_array'' = [''json_obj'', ''json_array'']
   \<and> spec_context_code ''json_obj'' = Some 6
   \<and> spec_context_code ''json_array'' = Some 7
   \<and> writeCtx File_Write fresh_file ''json_obj|json_array''
       = File_Write fresh_file (LittleEndian 8 (unat (spec_bitmask [''json_obj'', ''json_array''])))
   \<and> spec_context_names ''json_array | json_obj|json_array'' = [''json_array'', ''json_obj'', ''json_array'']
   \<and> set [''json_obj'', ''json_array''] = set [''json_array'', ''json_obj'', ''json_array'']
   \<and> spec_bitmask [''json_obj'', ''json_array''] = spec_bitmask [''json_array'', ''json_obj'', ''json_array'']
   \<and> spec_bitmask [''json_obj'', ''json_array''] = push_bit 6 1 OR push_bit 7 1
   \<and> bit (spec_bitmask [''json_obj'', ''json_array'']) 6
   \<and> getCtxCode ''json_obj'' = Inr (of_nat 6)
   \<and> find (\<lambda>name. spec_context_code name = None) (spec_context_names ''json|jsonx'') = Some ''jsonx''
   \<and> writeCtx File_Write fresh_file ''json|jsonx'' = (Some (UnknownContext ''jsonx''), fresh_file)"
proof -
  note t = ctx_statement_encoding [OF sink_File]
  have v: "Var ctx_stmt = CTX" by (simp add: ctx_stmt_def CTX_def)
  from t [where stmt = ctx_stmt and w = fresh_file] v
  have s: "writeStmt File_Write fresh_file ctx_stmt
       = ifOk (File_Write fresh_file [byte (unat CTX), byte (unat (Op ctx_stmt)), byte (unat NUMERIC)])
           (\<lambda>w. writeCtx File_Write w (Val ctx_stmt))" by blast
  have s': "writeStmt File_Write fresh_file ctx_stmt
       = (None, \<lparr>contents = [CHR 0x01, CHR 0x03, CHR 0x01, CHR 0xC0, CHR 0x00, CHR 0x00, CHR 0x00,
                               CHR 0x00, CHR 0x00, CHR 0x00, CHR 0x00], room = 89\<rparr>)"
    by code_simp
  have n1: "spec_context_names ''json_obj|json_array'' = [''json_obj'', ''json_array'']"
    by code_simp
  have k1: "spec_context_code ''json_obj'' = Some 6" by (simp add: spec_context_code_def)
  have k2: "spec_context_code ''json_array'' = Some 7" by (simp add: spec_context_code_def)
  have known: "\<forall>name \<in> set (spec_context_names ''json_obj|json_array''). spec_context_code name \<noteq> None"
    by (simp add: n1 k1 k2)
  from t [where val = "''json_obj|json_array''" and w = fresh_file] known
  have c: "writeCtx File_Write fresh_file ''json_obj|json_array''
       = File_Write fresh_file (LittleEndian 8 (unat (spec_bitmask [''json_obj'', ''json_array''])))"
    unfolding n1 by blast
  have n2: "spec_context_names ''json_array | json_obj|json_array''
            = [''json_array'', ''json_obj'', ''json_array'']" by code_simp
  have e: "set [''json_obj'', ''json_array''] = set [''json_array'', ''json_obj'', ''json_array'']"
    by auto
  from t [where ?names1.0 = "[''json_obj'', ''json_array'']"
            and ?names2.0 = "[''json_array'', ''json_obj'', ''json_array'']"] e
  have m: "spec_bitmask [''json_obj'', ''json_array'']
           = spec_bitmask [''json_array'', ''json_obj'', ''json_array'']" by blast
  have m': "spec_bitmask [''json_obj'', ''json_array''] = push_bit 6 1 OR push_bit 7 1"
    by (simp add: k1 k2)
  have g: "getCtxCode ''json_obj'' = Inr (of_nat 6)" by (simp add: getCtxCode_def JSON_OBJ_def)
  from t [where names = "[''json_obj'', ''json_array'']" and k = 6] g
  have b: "bit (spec_bitmask [''json_obj'', ''json_array'']) 6" by simp
  have f: "find (\<lambda>name. spec_context_code name = None) (spec_context_names ''json|jsonx'')
           = Some ''jsonx''" by code_simp
  from t [where val = "''json|jsonx''" and bad = "''jsonx''" and w = fresh_file] f
  have x: "writeCtx File_Write fresh_file ''json|jsonx'' = (Some (UnknownContext ''jsonx''), fresh_file)"
    by blast
  from sink_File v s s' n1 k1 k2 c n2 e m m' b g f x show ?thesis by blast
qed

subsection \<open>C6: path segments\<close>

text \<open>
  C6. Every compiled sentinel has as its path the pieces of the input path between
  slashes without the empty pieces, so no compiled segment is the empty string.
\<close>

theorem makeSentinels_path_segments:
  assumes "makeSentinels endpoints = Inr snts"
  shows "length snts = length endpoints
    \<and> (\<forall>i < length endpoints.
          Sentinel.Path (snts ! i)
            = filter (\<lambda>val. val \<noteq> []) (Split (Endpoint.Path (endpoints ! i)) (CHR ''/''))
          \<and> [] \<notin> set (Sentinel.Path (snts ! i)))"
proof -
  have m: "map Sentinel.Path snts = map compiled_path endpoints"
    using assms by (rule makeSentinels_paths)
  then have len: "length snts = length endpoints" by (rule map_eq_imp_length_eq)
  {
    fix i assume i: "i < length endpoints"
    from m have "map Sentinel.Path snts ! i = map compiled_path endpoints ! i" by simp
    with i len have "Sentinel.Path (snts ! i) = compiled_path (endpoints ! i)" by simp
    then have "Sentinel.Path (snts ! i)
            = filter (\<lambda>val. val \<noteq> []) (Split (Endpoint.Path (endpoints ! i)) (CHR ''/''))
          \<and> [] \<notin> set (Sentinel.Path (snts ! i))"
      by (simp add: compiled_path_def)
  }
  with len show ?thesis by blast
qed

theorem makeSentinels_path_segments_witness:
  "makeSentinels ex_endpoints = Inr ex_compiled
   \<and> length ex_compiled = length ex_endpoints
   \<and> Sentinel.Path (ex_compiled ! 0) = filter (\<lambda>val. val \<noteq> []) (Split ''/api/*'' (CHR ''/''))
   \<and> Sentinel.Path (ex_compiled ! 0) = [''api'', ''*'']
   \<and> Sentinel.Path (ex_compiled ! 1) = filter (\<lambda>val. val \<noteq> []) (Split ''/'' (CHR ''/''))
   \<and> Sentinel.Path (ex_compiled ! 1) = []
   \<and> Sentinel.Path (ex_compiled ! 2) = filter (\<lambda>val. val \<noteq> []) (Split ''/a//b/'' (CHR ''/''))
   \<and> Sentinel.Path (ex_compiled ! 2) = [''a'', ''b'']
   \<and> [] \<notin> set (Sentinel.Path (ex_compiled ! 2))"
proof -
  note t = makeSentinels_path_segments [OF ex_compiled_run]
  have len: "length ex_endpoints = 3" by (simp add: ex_endpoints_def)
  from t have l: "length ex_compiled = length ex_endpoints" by blast
  from t len have p0: "Sentinel.Path (ex_compiled ! 0)
      = filter (\<lambda>val. val \<noteq> []) (Split (Endpoint.Path (ex_endpoints ! 0)) (CHR ''/''))" by simp
  from t len have p1: "Sentinel.Path (ex_compiled ! 1)
      = filter (\<lambda>val. val \<noteq> []) (Split (Endpoint.Path (ex_endpoints ! 1)) (CHR ''/''))" by simp
  from t len have p2: "Sentinel.Path (ex_compiled ! 2)
      = filter (\<lambda>val. val \<noteq> []) (Split (Endpoint.Path (ex_endpoints ! 2)) (CHR ''/''))
      \<and> [] \<notin> set (Sentinel.Path (ex_compiled ! 2))" by simp
  have e: "Endpoint.Path (ex_endpoints ! 0) = ''/api/*''" "Endpoint.Path (ex_endpoints ! 1) = ''/''"
    "Endpoint.Path (ex_endpoints ! 2) = ''/a//b/''"
    by (simp_all add: ex_endpoints_def)
  have v: "Sentinel.Path (ex_compiled ! 0) = [''api'', ''*'']"
    "Sentinel.Path (ex_compiled ! 1) = []" "Sentinel.Path (ex_compiled ! 2) = [''a'', ''b'']"
    by (simp_all add: ex_compiled_def)
  from ex_compiled_run l p0 p1 p2 v show ?thesis unfolding e by blast
qed

subsection \<open>C7: the minimal stream and the two counts\<close>

text \<open>
  C7 (amended). Input without a JSON value is read as no endpoints. With no endpoints,
  and room for eight bytes, the output is the version, an offset count of 0 and a
  sentinel count of 0, and nothing else. In every output of a run that succeeds, the
  two 2-byte counts hold the number of sentinels modulo \<open>2^16\<close>, which is the number
  of sentinels when there are fewer than \<open>65536\<close>.
\<close>

theorem minimal_stream_and_counts:
  "readEndpoints (Inr NoValue) = Inr []
   \<and> main (Inr NoValue) opened = main (Inr (Document [])) opened
   \<and> (8 \<le> space \<longrightarrow>
        main (Inr (Document [])) (Inr space)
          = (None, Some \<lparr>contents = LittleEndian 4 (unat VERSION) @ LittleEndian 2 0 @ LittleEndian 2 0,
                         room = space - 8\<rparr>))
   \<and> (writeSentinels (Inr space) snts = (None, Some f) \<longrightarrow>
        take 2 (drop 4 (contents f)) = LittleEndian 2 (length snts mod 2 ^ 16)
        \<and> take 2 (drop (4 + 2 + 8 * length snts) (contents f))
            = LittleEndian 2 (length snts mod 2 ^ 16)
        \<and> le_value (take 2 (drop 4 (contents f))) = length snts mod 2 ^ 16
        \<and> le_value (take 2 (drop (4 + 2 + 8 * length snts) (contents f)))
            = length snts mod 2 ^ 16)"
proof -
  have a: "readEndpoints (Inr NoValue) = Inr []" by (simp add: readEndpoints_def)
  have b: "main (Inr NoValue) opened = main (Inr (Document [])) opened"
    by (simp add: main_def readEndpoints_def)
  have c: "main (Inr (Document [])) (Inr space)
          = (None, Some \<lparr>contents = LittleEndian 4 (unat VERSION) @ LittleEndian 2 0 @ LittleEndian 2 0,
                         room = space - 8\<rparr>)" if "8 \<le> space"
  proof -
    have "writeSentinels (Inr space) []
          = (case File_Write \<lparr>contents = [], room = space\<rparr> (spec_stream []) of
               (err, w) \<Rightarrow> (err, Some w))"
      using writeSentinels_ok [of "[]" space] by simp
    moreover have "spec_stream [] = LittleEndian 4 (unat VERSION) @ LittleEndian 2 0 @ LittleEndian 2 0"
      by (simp add: spec_stream_def VERSION_def)
    ultimately show ?thesis
      using that by (simp add: main_def readEndpoints_def makeSentinels_def File_Write_fits)
  qed
  have d: "take 2 (drop 4 (contents f)) = LittleEndian 2 (length snts mod 2 ^ 16)
        \<and> take 2 (drop (4 + 2 + 8 * length snts) (contents f))
            = LittleEndian 2 (length snts mod 2 ^ 16)
        \<and> le_value (take 2 (drop 4 (contents f))) = length snts mod 2 ^ 16
        \<and> le_value (take 2 (drop (4 + 2 + 8 * length snts) (contents f)))
            = length snts mod 2 ^ 16"
    if "writeSentinels (Inr space) snts = (None, Some f)"
  proof -
    from writeSentinels_success [OF that]
    have out: "contents f = spec_stream (map (\<lambda>snt. fst (spec_sentinel snt)) snts)" by blast
    have 1: "take 2 (drop 4 (contents f)) = LittleEndian 2 (length snts mod 2 ^ 16)"
      unfolding out using spec_stream_counts(1) [of "map (\<lambda>snt. fst (spec_sentinel snt)) snts"]
      by simp
    have 2: "take 2 (drop (4 + 2 + 8 * length snts) (contents f))
            = LittleEndian 2 (length snts mod 2 ^ 16)"
      unfolding out using spec_stream_counts(2) [of "map (\<lambda>snt. fst (spec_sentinel snt)) snts"]
      by simp
    have 3: "le_value (LittleEndian 2 (length snts mod 2 ^ 16)) = length snts mod 2 ^ 16"
      by (simp add: le_value_LittleEndian)
    from 1 2 3 show ?thesis by simp
  qed
  from a b c d show ?thesis by blast
qed

theorem minimal_stream_and_counts_witness:
  "readEndpoints (Inr NoValue) = Inr []
   \<and> main (Inr NoValue) (Inr 8) = main (Inr (Document [])) (Inr 8)
   \<and> (8 :: nat) \<le> 8
   \<and> main (Inr (Document [])) (Inr 8)
       = (None, Some \<lparr>contents = LittleEndian 4 (unat VERSION) @ LittleEndian 2 0 @ LittleEndian 2 0,
                      room = 8 - 8\<rparr>)
   \<and> LittleEndian 4 (unat VERSION) @ LittleEndian 2 0 @ LittleEndian 2 0
       = [CHR 0x04, CHR 0x00, CHR 0x00, CHR 0x00, CHR 0x00, CHR 0x00, CHR 0x00, CHR 0x00]
   \<and> writeSentinels (Inr 100) ex_sentinels = (None, Some ex_output)
   \<and> take 2 (drop 4 (contents ex_output)) = LittleEndian 2 (length ex_sentinels mod 2 ^ 16)
   \<and> take 2 (drop (4 + 2 + 8 * length ex_sentinels) (contents ex_output))
       = LittleEndian 2 (length ex_sentinels mod 2 ^ 16)
   \<and> le_value (take 2 (drop 4 (contents ex_output))) = length ex_sentinels mod 2 ^ 16
   \<and> le_value (take 2 (drop (4 + 2 + 8 * length ex_sentinels) (contents ex_output)))
       = length ex_sentinels mod 2 ^ 16
   \<and> length ex_sentinels mod 2 ^ 16 = 2"
proof -
  note t = minimal_stream_and_counts [where opened = "Inr 8" and space = 8]
  note u = minimal_stream_and_counts [where space = 100 and snts = ex_sentinels and f = ex_output]
  have a: "readEndpoints (Inr NoValue) = Inr []" using t by blast
  have b: "main (Inr NoValue) (Inr 8) = main (Inr (Document [])) (Inr 8)" using t by blast
  have c: "(8 :: nat) \<le> 8" by simp
  have d: "main (Inr (Document [])) (Inr 8)
       = (None, Some \<lparr>contents = LittleEndian 4 (unat VERSION) @ LittleEndian 2 0 @ LittleEndian 2 0,
                      room = 8 - 8\<rparr>)" using t c by blast
  have e: "LittleEndian 4 (unat VERSION) @ LittleEndian 2 0 @ LittleEndian 2 0
       = [CHR 0x04, CHR 0x00, CHR 0x00, CHR 0x00, CHR 0x00, CHR 0x00, CHR 0x00, CHR 0x00]"
    by code_simp
  from u ex_output_run
  have f: "take 2 (drop 4 (contents ex_output)) = LittleEndian 2 (length ex_sentinels mod 2 ^ 16)
   \<and> take 2 (drop (4 + 2 + 8 * length ex_sentinels) (contents ex_output))
       = LittleEndian 2 (length ex_sentinels mod 2 ^ 16)
   \<and> le_value (take 2 (drop 4 (contents ex_output))) = length ex_sentinels mod 2 ^ 16
   \<and> le_value (take 2 (drop (4 + 2 + 8 * length ex_sentinels) (contents ex_output)))
       = length ex_sentinels mod 2 ^ 16" by blast
  have g: "length ex_sentinels mod 2 ^ 16 = 2" by (simp add: ex_sentinels_def)
  from a b c d e ex_output_run f g show ?thesis by blast
qed

text \<open>The claim as the specification states it fails: with \<open>65536\<close> sentinels the
  run succeeds and both counts are 0.\<close>

theorem count_fields_wrap_at_65536:
  "length many_sentinels = 65536
   \<and> writeSentinels (Inr 917512) many_sentinels
       = (None, Some \<lparr>contents = spec_stream (replicate 65536 empty_record), room = 0\<rparr>)
   \<and> take 2 (drop 4 (spec_stream (replicate 65536 empty_record))) = LittleEndian 2 0
   \<and> take 2 (drop (4 + 2 + 8 * 65536) (spec_stream (replicate 65536 empty_record)))
       = LittleEndian 2 0
   \<and> le_value (LittleEndian 2 0) = 0"
proof -
  have len: "length many_sentinels = 65536"
    by (simp only: many_sentinels_def length_replicate)
  have ok: "\<forall>snt \<in> set many_sentinels. snd (spec_sentinel snt) = None"
    by (simp add: many_sentinels_def spec_sentinel_empty)
  have recs: "map (\<lambda>snt. fst (spec_sentinel snt)) many_sentinels = replicate 65536 empty_record"
    by (simp add: many_sentinels_def spec_sentinel_empty)
  have size: "length (spec_stream (replicate 65536 empty_record)) = 917512"
    by (simp add: length_spec_stream length_concat_replicate empty_record_def)
  have run: "writeSentinels (Inr 917512) many_sentinels
       = (None, Some \<lparr>contents = spec_stream (replicate 65536 empty_record), room = 0\<rparr>)"
    unfolding writeSentinels_ok [OF ok] recs
    by (simp add: File_Write_fits size)
  have c1: "take 2 (drop 4 (spec_stream (replicate 65536 empty_record))) = LittleEndian 2 0"
    using spec_stream_counts(1) [of "replicate 65536 empty_record"] by simp
  have c2: "take 2 (drop (4 + 2 + 8 * 65536) (spec_stream (replicate 65536 empty_record)))
       = LittleEndian 2 0"
    using spec_stream_counts(2) [of "replicate 65536 empty_record"] by simp
  have v: "le_value (LittleEndian 2 0) = 0" by (simp add: le_value_LittleEndian)
  from len run c1 c2 v show ?thesis by blast
qed

subsection \<open>C8: an incomplete accumulator is dropped\<close>

text \<open>
  C8. Tokens at the end of a group that are accepted one by one but never make the
  accumulator complete leave no statement and raise no error: \<open>parseGroup\<close> returns
  the statements completed before them.
\<close>

theorem parseGroup_incomplete_discarded:
  assumes "parseGroup_loop [] Stmt0 ts = Inr (result, cur)"
    and "\<forall>k. 0 < k \<and> k \<le> length us \<longrightarrow>
            (\<exists>c. assignTokens cur (take k us) = Inr c \<and> \<not> complete c)"
  shows "parseGroup (ts @ us) = Inr result"
proof -
  from parseGroup_loop_never [OF assms(2)] obtain final where
    "parseGroup_loop result cur us = Inr (result, final)" by blast
  with assms(1) show ?thesis by (simp add: parseGroup_def parseGroup_loop_append)
qed

theorem parseGroup_incomplete_discarded_witness:
  "parseGroup_loop [] Stmt0 [''pass''] = Inr ([\<lparr>Var = 0, Op = 2, Val = [], Regexp = []\<rparr>], Stmt0)
   \<and> assignTokens Stmt0 [''$key''] = Inr \<lparr>Var = 2, Op = 0, Val = [], Regexp = []\<rparr>
   \<and> \<not> complete \<lparr>Var = 2, Op = 0, Val = [], Regexp = []\<rparr>
   \<and> assignTokens Stmt0 [''$key'', ''==''] = Inr \<lparr>Var = 2, Op = 3, Val = [], Regexp = []\<rparr>
   \<and> \<not> complete \<lparr>Var = 2, Op = 3, Val = [], Regexp = []\<rparr>
   \<and> parseGroup ([''pass''] @ [''$key'', ''==''])
       = Inr [\<lparr>Var = 0, Op = 2, Val = [], Regexp = []\<rparr>]
   \<and> parseGroup_loop [] Stmt0 [] = Inr ([], Stmt0)
   \<and> parseGroup ([] @ [''$key'', ''=='']) = Inr []"
proof -
  have p: "parseGroup_loop [] Stmt0 [''pass'']
           = Inr ([\<lparr>Var = 0, Op = 2, Val = [], Regexp = []\<rparr>], Stmt0)" by code_simp
  have k1: "assignTokens Stmt0 [''$key''] = Inr \<lparr>Var = 2, Op = 0, Val = [], Regexp = []\<rparr>"
    by code_simp
  have n1: "\<not> complete \<lparr>Var = 2, Op = 0, Val = [], Regexp = []\<rparr>" by code_simp
  have k2: "assignTokens Stmt0 [''$key'', ''==''] = Inr \<lparr>Var = 2, Op = 3, Val = [], Regexp = []\<rparr>"
    by code_simp
  have n2: "\<not> complete \<lparr>Var = 2, Op = 3, Val = [], Regexp = []\<rparr>" by code_simp
  have never: "\<forall>k. 0 < k \<and> k \<le> length [''$key'', ''==''] \<longrightarrow>
            (\<exists>c. assignTokens Stmt0 (take k [''$key'', ''=='']) = Inr c \<and> \<not> complete c)"
  proof (intro allI impI)
    fix k :: nat
    assume "0 < k \<and> k \<le> length [''$key'', ''=='']"
    then have "k = 1 \<or> k = 2" by (simp add: le_Suc_eq) arith
    then consider "k = 1" | "k = 2" by blast
    then show "\<exists>c. assignTokens Stmt0 (take k [''$key'', ''=='']) = Inr c \<and> \<not> complete c"
    proof cases
      case 1
      with k1 n1 show ?thesis by simp
    next
      case 2
      with k2 n2 show ?thesis by simp
    qed
  qed
  have e: "parseGroup_loop [] Stmt0 [] = Inr ([], Stmt0)" by simp
  from parseGroup_incomplete_discarded [OF p never]
  have r1: "parseGroup ([''pass''] @ [''$key'', ''==''])
       = Inr [\<lparr>Var = 0, Op = 2, Val = [], Regexp = []\<rparr>]" .
  from parseGroup_incomplete_discarded [OF e never]
  have r2: "parseGroup ([] @ [''$key'', ''=='']) = Inr []" .
  from p k1 n1 k2 n2 r1 e r2 show ?thesis by blast
qed

subsection \<open>C9: colons\<close>

text \<open>
  C9 (amended). A colon that the scanning loop reads at the start of a token closes the
  current group even when the group is empty; so a rule string that begins with a colon
  has an empty first group, which becomes a clause of no statements. A group left
  empty at the end of the input is omitted. A colon inside a bare word is part of the
  word and closes nothing.
\<close>

theorem colon_flushes_group:
  "(ReadRune buf = Some (0x3A, buf') \<longrightarrow>
      scanGroups_loop result grp buf = scanGroups_loop (result @ [grp]) [] buf')
   \<and> scanGroups (CHR '':'' # rest)
       = (case scanGroups rest of Inl e \<Rightarrow> Inl e | Inr groups \<Rightarrow> Inr ([] # groups))
   \<and> parseRule (CHR '':'' # rest)
       = (case parseRule rest of Inl e \<Rightarrow> Inl e | Inr clauses \<Rightarrow> Inr ([] # clauses))
   \<and> (scanGroups_loop [] [] str = Inr (result, grp) \<longrightarrow>
        scanGroups str = Inr (if grp = [] then result else result @ [grp]))
   \<and> scanWord dst (CHR '':'' # rest) = scanWord (dst @ '':'') rest"
proof -
  have a: "scanGroups_loop result grp buf = scanGroups_loop (result @ [grp]) [] buf'"
    if "ReadRune buf = Some (0x3A, buf')"
    using that by (simp add: scanGroups_loop.simps [of result grp buf])
  have d: "scanGroups str = Inr (if grp = [] then result else result @ [grp])"
    if "scanGroups_loop [] [] str = Inr (result, grp)"
    using that by (simp add: scanGroups_def)
  from a scanGroups_colon parseRule_colon d scanWord_colon show ?thesis by blast
qed

theorem colon_flushes_group_witness:
  "ReadRune '': pass'' = Some (0x3A, '' pass'')
   \<and> scanGroups_loop [] [''x''] '': pass'' = scanGroups_loop ([] @ [[''x'']]) [] '' pass''
   \<and> scanGroups '':: pass'' = Inr [[], [], [''pass'']]
   \<and> parseRule '':: pass'' = Inr [[], [], [\<lparr>Var = 0, Op = 2, Val = [], Regexp = []\<rparr>]]
   \<and> scanGroups_loop [] [] ''pass :'' = Inr ([[''pass'']], [])
   \<and> scanGroups ''pass :'' = Inr [[''pass'']]
   \<and> scanWord ''pass'' '':block'' = scanWord (''pass'' @ '':'') ''block''"
proof -
  have r: "ReadRune '': pass'' = Some (0x3A, '' pass'')" by (rule ReadRune_colon)
  note t = colon_flushes_group
    [where buf = "'': pass''" and buf' = "'' pass''" and result = "[]" and grp = "[''x'']"]
  from t r have a: "scanGroups_loop [] [''x''] '': pass'' = scanGroups_loop ([] @ [[''x'']]) [] '' pass''"
    by blast
  have g0: "scanGroups '' pass'' = Inr [[''pass'']]" by code_simp
  from colon_flushes_group [where rest = "'' pass''"] g0
  have g1: "scanGroups '': pass'' = Inr [[], [''pass'']]" by simp
  from colon_flushes_group [where rest = "'': pass''"] g1
  have g2: "scanGroups '':: pass'' = Inr [[], [], [''pass'']]" by simp
  have p0: "parseRule '' pass'' = Inr [[\<lparr>Var = 0, Op = 2, Val = [], Regexp = []\<rparr>]]" by code_simp
  from colon_flushes_group [where rest = "'' pass''"] p0
  have p1: "parseRule '': pass'' = Inr [[], [\<lparr>Var = 0, Op = 2, Val = [], Regexp = []\<rparr>]]" by simp
  from colon_flushes_group [where rest = "'': pass''"] p1
  have p2: "parseRule '':: pass'' = Inr [[], [], [\<lparr>Var = 0, Op = 2, Val = [], Regexp = []\<rparr>]]" by simp
  have l: "scanGroups_loop [] [] ''pass :'' = Inr ([[''pass'']], [])" by code_simp
  from colon_flushes_group [where str = "''pass :''" and result = "[[''pass'']]" and grp = "[]"] l
  have e: "scanGroups ''pass :'' = Inr [[''pass'']]" by simp
  from colon_flushes_group [where dst = "''pass''" and rest = "''block''"]
  have w: "scanWord ''pass'' '':block'' = scanWord (''pass'' @ '':'') ''block''" by blast
  from r a g2 p2 l e w show ?thesis by blast
qed

text \<open>The claim as the specification states it fails: the colons of \<open>pass:block\<close>
  and of \<open>a::b\<close> are outside any literal and close no group.\<close>

theorem colon_inside_word_does_not_flush:
  "scanGroups ''pass:block'' = Inr [[''pass:block'']]
   \<and> scanGroups ''a::b'' = Inr [[''a::b'']]
   \<and> parseRule ''pass:block'' = Inl (UnknownOperator ''pass:block'')"
  by code_simp

subsection \<open>C10: counts and lengths are taken modulo \<open>2^16\<close>\<close>

text \<open>
  C10. Every count and every length prefix is written by \<open>writeUint16\<close> of a
  \<open>uint16\<close> conversion, that is as the value modulo \<open>2^16\<close>, and no error comes of a
  value that does not fit: a string is its length modulo \<open>2^16\<close> followed by all its
  bytes, a record is the encoding of the wire format with all its counts modulo
  \<open>2^16\<close>, and so is the stream. A string of \<open>65536\<close> bytes has the length prefix 0
  and is followed by its \<open>65536\<close> bytes.
\<close>

theorem counts_and_lengths_wrap:
  "writeUint16 Write w (uint16 n) = Write w (LittleEndian 2 (n mod 2 ^ 16))
   \<and> (sink Write \<longrightarrow>
        writeStr Write w val = Write w (LittleEndian 2 (length val mod 2 ^ 16) @ val))
   \<and> (sink Write \<longrightarrow> writeSentinel Write w snt = emit Write w (spec_sentinel snt))
   \<and> (writeSentinels (Inr space) snts = (None, Some f) \<longrightarrow>
        contents f = spec_stream (map (\<lambda>snt. fst (spec_sentinel snt)) snts))
   \<and> (length val = 65536 \<and> 65538 \<le> room f' \<longrightarrow>
        writeStr File_Write f' val
          = (None, \<lparr>contents = contents f' @ LittleEndian 2 0 @ val, room = room f' - 65538\<rparr>))"
proof -
  have a: "writeUint16 Write w (uint16 n) = Write w (LittleEndian 2 (n mod 2 ^ 16))"
    by (simp add: writeUint16_emit spec_count_def emit_bytes)
  have b: "writeStr Write w val = Write w (LittleEndian 2 (length val mod 2 ^ 16) @ val)"
    if "sink Write"
    by (simp add: writeStr_emit [OF that] spec_string_def spec_count_def then_enc_def emit_bytes)
  have c: "writeSentinel Write w snt = emit Write w (spec_sentinel snt)" if "sink Write"
    by (rule writeSentinel_emit [OF that])
  have d: "contents f = spec_stream (map (\<lambda>snt. fst (spec_sentinel snt)) snts)"
    if "writeSentinels (Inr space) snts = (None, Some f)"
    using writeSentinels_success [OF that] by blast
  have e: "writeStr File_Write f' val
          = (None, \<lparr>contents = contents f' @ LittleEndian 2 0 @ val, room = room f' - 65538\<rparr>)"
    if "length val = 65536 \<and> 65538 \<le> room f'"
    using that
    by (simp add: writeStr_emit [OF sink_File] spec_string_def spec_count_def then_enc_def
          emit_bytes File_Write_fits)
  from a b c d e show ?thesis by blast
qed

theorem counts_and_lengths_wrap_witness:
  "sink File_Write
   \<and> writeUint16 File_Write fresh_file (uint16 65537)
       = File_Write fresh_file (LittleEndian 2 (65537 mod 2 ^ 16))
   \<and> writeStr File_Write fresh_file ''GET''
       = File_Write fresh_file (LittleEndian 2 (length ''GET'' mod 2 ^ 16) @ ''GET'')
   \<and> writeSentinel File_Write fresh_file (ex_sentinels ! 1)
       = emit File_Write fresh_file (spec_sentinel (ex_sentinels ! 1))
   \<and> writeSentinels (Inr 100) ex_sentinels = (None, Some ex_output)
   \<and> contents ex_output = spec_stream (map (\<lambda>snt. fst (spec_sentinel snt)) ex_sentinels)
   \<and> length long_value = 65536
   \<and> 65538 \<le> room \<lparr>contents = [], room = 70000\<rparr>
   \<and> writeStr File_Write \<lparr>contents = [], room = 70000\<rparr> long_value
       = (None, \<lparr>contents = contents \<lparr>contents = [], room = 70000\<rparr> @ LittleEndian 2 0 @ long_value,
                 room = room \<lparr>contents = [], room = 70000\<rparr> - 65538\<rparr>)"
proof -
  note t = counts_and_lengths_wrap [where Write = File_Write and w = fresh_file]
  have a: "writeUint16 File_Write fresh_file (uint16 65537)
       = File_Write fresh_file (LittleEndian 2 (65537 mod 2 ^ 16))"
    using t [where n = 65537] by blast
  have b: "writeStr File_Write fresh_file ''GET''
       = File_Write fresh_file (LittleEndian 2 (length ''GET'' mod 2 ^ 16) @ ''GET'')"
    using t [where val = "''GET''"] sink_File by blast
  have c: "writeSentinel File_Write fresh_file (ex_sentinels ! 1)
       = emit File_Write fresh_file (spec_sentinel (ex_sentinels ! 1))"
    using t [where snt = "ex_sentinels ! 1"] sink_File by blast
  have d: "contents ex_output = spec_stream (map (\<lambda>snt. fst (spec_sentinel snt)) ex_sentinels)"
    using t [where space = 100 and snts = ex_sentinels and f = ex_output] ex_output_run by blast
  have l: "length long_value = 65536" by (simp only: long_value_def length_replicate)
  have r: "65538 \<le> room \<lparr>contents = [], room = 70000\<rparr>" by simp
  have e: "writeStr File_Write \<lparr>contents = [], room = 70000\<rparr> long_value
       = (None, \<lparr>contents = contents \<lparr>contents = [], room = 70000\<rparr> @ LittleEndian 2 0 @ long_value,
                 room = room \<lparr>contents = [], room = 70000\<rparr> - 65538\<rparr>)"
    using t [where val = long_value and f' = "\<lparr>contents = [], room = 70000\<rparr>"] l r by blast
  from sink_File a b c ex_output_run d l r e show ?thesis by blast
qed

end
